theory Spec2Isabelle
  imports Main
begin

section \<open>The Go library functions the lexer calls\<close>

text \<open>
  A Go \<open>string\<close> is a sequence of bytes, here a \<open>string\<close> (a list of 8-bit \<open>char\<close>s).
  A \<open>rune\<close> is an \<open>int32\<close>, here an \<open>int\<close>; offsets and counts are Go \<open>int\<close>s, here
  \<open>int\<close> too (every offset the lexer computes lies between \<open>-4\<close> and the length of the
  source plus 4, so no wrap-around can occur).
\<close>

type_synonym rune = int

definition byte_at :: "string \<Rightarrow> nat \<Rightarrow> int" where
  "byte_at s i = of_char (s ! i)"

subsection \<open>Package unicode/utf8\<close>

definition RuneError :: rune where
  "RuneError = 0xFFFD"

definition MaxRune :: rune where
  "MaxRune = 0x10FFFF"

text \<open>
  The table \<open>first\<close> of package utf8: information about the first byte of an encoding.
  \<open>0xF0\<close> marks ASCII, \<open>0xF1\<close> an invalid first byte; otherwise the low three bits are
  the size of the encoding and the high four bits index \<open>acceptRanges\<close>.
\<close>

definition utf8_first :: "int \<Rightarrow> int" where
  "utf8_first b =
     (if b < 0x80 then 0xF0
      else if b < 0xC2 then 0xF1
      else if b < 0xE0 then 0x02
      else if b = 0xE0 then 0x13
      else if b < 0xED then 0x03
      else if b = 0xED then 0x23
      else if b < 0xF0 then 0x03
      else if b = 0xF0 then 0x34
      else if b < 0xF4 then 0x04
      else if b = 0xF4 then 0x44
      else 0xF1)"

text \<open>The table \<open>acceptRanges\<close>: the range allowed for the second byte.\<close>

definition acceptRanges :: "int \<Rightarrow> int \<times> int" where
  "acceptRanges i =
     (if i = 0 then (0x80, 0xBF)
      else if i = 1 then (0xA0, 0xBF)
      else if i = 2 then (0x80, 0x9F)
      else if i = 3 then (0x90, 0xBF)
      else (0x80, 0x8F))"

text \<open>
  \<open>utf8.DecodeRuneInString\<close>: the first rune of \<open>s\<close> and its width in bytes;
  \<open>(RuneError, 0)\<close> on the empty string and \<open>(RuneError, 1)\<close> on a malformed encoding.
  The masks and shifts of the Go code are written as \<open>mod\<close> and multiplication
  (\<open>s0 & 0x1F\<close> is \<open>s0 mod 32\<close>, \<open>x << 6\<close> is \<open>x * 64\<close>, and the operands of each
  \<open>|\<close> have no bit in common).
\<close>

definition utf8_DecodeRuneInString :: "string \<Rightarrow> rune \<times> int" where
  "utf8_DecodeRuneInString s =
     (let n = int (length s) in
      if n < 1 then (RuneError, 0)
      else
        let s0 = byte_at s 0; x = utf8_first s0 in
        if x \<ge> 0xF0 then ((if x = 0xF0 then s0 else RuneError), 1)
        else
          let sz = x mod 8; lo = fst (acceptRanges (x div 16)); hi = snd (acceptRanges (x div 16)) in
          if n < sz then (RuneError, 1)
          else
            let s1 = byte_at s 1 in
            if s1 < lo \<or> hi < s1 then (RuneError, 1)
            else if sz \<le> 2 then ((s0 mod 32) * 64 + s1 mod 64, 2)
            else
              let s2 = byte_at s 2 in
              if s2 < 0x80 \<or> 0xBF < s2 then (RuneError, 1)
              else if sz \<le> 3 then ((s0 mod 16) * 4096 + (s1 mod 64) * 64 + s2 mod 64, 3)
              else
                let s3 = byte_at s 3 in
                if s3 < 0x80 \<or> 0xBF < s3 then (RuneError, 1)
                else ((s0 mod 8) * 262144 + (s1 mod 64) * 4096 + (s2 mod 64) * 64 + s3 mod 64, 4))"

text \<open>\<open>utf8.RuneLen\<close>: the number of bytes of the encoding of a rune, \<open>-1\<close> if it has none.\<close>

definition utf8_RuneLen :: "rune \<Rightarrow> int" where
  "utf8_RuneLen r =
     (if r < 0 then -1
      else if r \<le> 0x7F then 1
      else if r \<le> 0x7FF then 2
      else if 0xD800 \<le> r \<and> r \<le> 0xDFFF then -1
      else if r \<le> 0xFFFF then 3
      else if r \<le> MaxRune then 4
      else -1)"

text \<open>\<open>utf8.ValidRune\<close>: a code point that is no surrogate half.\<close>

definition utf8_ValidRune :: "rune \<Rightarrow> bool" where
  "utf8_ValidRune r =
     (if 0 \<le> r \<and> r < 0xD800 then True
      else if 0xDFFF < r \<and> r \<le> MaxRune then True
      else False)"

text \<open>The UTF-8 encoding of a valid rune (the conversion \<open>string(r)\<close>).\<close>

definition utf8_encode :: "rune \<Rightarrow> string" where
  "utf8_encode r =
     (if r \<le> 0x7F then [char_of r]
      else if r \<le> 0x7FF then [char_of (0xC0 + r div 64), char_of (0x80 + r mod 64)]
      else if r \<le> 0xFFFF then
        [char_of (0xE0 + r div 4096), char_of (0x80 + (r div 64) mod 64), char_of (0x80 + r mod 64)]
      else
        [char_of (0xF0 + r div 262144), char_of (0x80 + (r div 4096) mod 64),
         char_of (0x80 + (r div 64) mod 64), char_of (0x80 + r mod 64)])"

subsection \<open>Package unicode\<close>

text \<open>
  \<open>unicode.IsSpace\<close>: the code points with Unicode's White\_Space property. The Go
  function compares \<open>uint32(r)\<close> with \<open>MaxLatin1\<close> first and searches the range table
  \<open>White_Space\<close> otherwise; a negative rune is above every range of the table, so the
  answer for it is \<open>false\<close>.
\<close>

definition unicode_IsSpace :: "rune \<Rightarrow> bool" where
  "unicode_IsSpace r =
     (if 0 \<le> r \<and> r \<le> 0xFF then
        r = 0x09 \<or> r = 0x0A \<or> r = 0x0B \<or> r = 0x0C \<or> r = 0x0D \<or> r = 0x20 \<or> r = 0x85 \<or> r = 0xA0
      else
        r = 0x1680 \<or> (0x2000 \<le> r \<and> r \<le> 0x200A) \<or> r = 0x2028 \<or> r = 0x2029 \<or>
        r = 0x202F \<or> r = 0x205F \<or> r = 0x3000)"

subsection \<open>Packages strings and bytes\<close>

text \<open>\<open>strings.IndexByte\<close>: the index of the first byte \<open>c\<close> in \<open>s\<close>, or \<open>-1\<close>.\<close>

fun strings_IndexByte :: "string \<Rightarrow> char \<Rightarrow> int" where
  "strings_IndexByte [] c = -1"
| "strings_IndexByte (x # xs) c =
     (if x = c then 0
      else (let i = strings_IndexByte xs c in if i < 0 then -1 else i + 1))"

text \<open>\<open>strings.Index\<close>: the index of the first instance of \<open>sub\<close> in \<open>s\<close>, or \<open>-1\<close>.\<close>

fun strings_Index :: "string \<Rightarrow> string \<Rightarrow> int" where
  "strings_Index [] sub = (if sub = [] then 0 else -1)"
| "strings_Index (x # xs) sub =
     (if take (length sub) (x # xs) = sub then 0
      else (let i = strings_Index xs sub in if i < 0 then -1 else i + 1))"

text \<open>
  The loop \<open>for i, r := range s\<close> of \<open>strings.IndexRune\<close> in the case of
  \<open>utf8.RuneError\<close>: the offset of the first rune of \<open>s\<close> that decodes to \<open>RuneError\<close>
  (a malformed byte, or an encoded U+FFFD), counted from \<open>i\<close>.
\<close>

fun index_rune_error :: "nat \<Rightarrow> string \<Rightarrow> int \<Rightarrow> int" where
  "index_rune_error 0 s i = -1"
| "index_rune_error (Suc k) s i =
     (if s = [] then -1
      else if fst (utf8_DecodeRuneInString s) = RuneError then i
      else index_rune_error k (drop (nat (snd (utf8_DecodeRuneInString s))) s)
             (i + snd (utf8_DecodeRuneInString s)))"

text \<open>
  \<open>strings.IndexRune\<close>: the index of the first instance of the code point \<open>r\<close> in \<open>s\<close>,
  or \<open>-1\<close>; for \<open>RuneError\<close> the first instance of any invalid byte sequence. The range
  loop visits at most \<open>length s\<close> runes, which is the bound given to
  \<open>index_rune_error\<close>.
\<close>

definition strings_IndexRune :: "string \<Rightarrow> rune \<Rightarrow> int" where
  "strings_IndexRune s r =
     (if 0 \<le> r \<and> r < 0x80 then strings_IndexByte s (char_of r)
      else if r = RuneError then index_rune_error (length s) s 0
      else if \<not> utf8_ValidRune r then -1
      else strings_Index s (utf8_encode r))"

text \<open>\<open>bytes.Count(b, lineSep)\<close> with the one-byte separator \<open>lineSep = "\n"\<close>.\<close>

definition count_lineSep :: "string \<Rightarrow> int" where
  "count_lineSep val = int (length (filter (\<lambda>c. c = CHR 0x0A) val))"

section \<open>The backtracking history\<close>

text \<open>
  Modelled from the spec: the type \<open>stack\<close> with \<open>newStack\<close>, \<open>push\<close>, \<open>pop\<close> and
  \<open>clear\<close>, which \<open>lexer.go\<close> uses and whose file is not among the sources. The spec
  calls it an ordered, last-in-first-out sequence of previously decoded runes, cleared at
  each boundary; \<open>TestStack\<close> fixes that \<open>pop\<close> returns the rune pushed last and
  \<open>EOFRune\<close> on an empty stack. \<open>push\<close> takes a rune and \<open>pop\<close> returns one, so an
  entry is a rune (the byte widths the spec mentions have no place in these calls:
  \<open>Backup\<close> takes the width from \<open>utf8.RuneLen\<close>); the top of the stack is the head of
  the list. \<open>push\<close> keeps every rune it is given, \<open>EOFRune\<close> too: \<open>IdentState\<close> of the
  tests reads up to the end of the source and calls \<open>Backup\<close> once, and
  \<open>TestMultipleTokens\<close> expects the whole word \<open>world\<close> as the token, so that
  \<open>Backup\<close> has popped an entry for the end of the source and not the last letter.
\<close>

type_synonym stack = "rune list"

definition EOFRune :: rune where
  "EOFRune = -1"

definition newStack :: stack where
  "newStack = []"

definition push :: "rune \<Rightarrow> stack \<Rightarrow> stack" where
  "push r s = r # s"

definition pop :: "stack \<Rightarrow> rune \<times> stack" where
  "pop s = (case s of [] \<Rightarrow> (EOFRune, []) | r # rest \<Rightarrow> (r, rest))"

definition clear :: "stack \<Rightarrow> stack" where
  "clear s = []"

section \<open>Tokens, the token channel and the lexer\<close>

type_synonym TokenType = int

definition ErrorToken :: TokenType where
  "ErrorToken = -1"

definition EOFToken :: TokenType where
  "EOFToken = 0"

record Token =
  Type :: TokenType
  Value :: string
  Position :: int
  Line :: int

text \<open>
  A Go channel of tokens with a buffer: the tokens sent and not yet received (oldest
  first), the capacity given to \<open>make\<close>, and whether \<open>close\<close> was called. The field
  \<open>tokens\<close> of a lexer is \<open>None\<close> (Go's \<open>nil\<close>) until \<open>StartSync\<close> makes the channel.
\<close>

record chan =
  buf :: "Token list"
  cap :: nat
  closed :: bool

text \<open>
  What stops a call from returning: a run-time panic (a slice out of range, a send on a
  closed channel, \<open>close\<close> of a nil or closed channel), or a channel operation that
  cannot proceed in this state of the channel (\<open>Blocked\<close>: a send on a nil or full
  channel, a receive from a nil channel or from an empty one that is still open). A blocked
  operation waits for the other side of the channel; when the lexer runs synchronously no
  other side is running.
\<close>

datatype fault = SliceOutOfRange | SendOnClosed | CloseOfNil | CloseOfClosed | Blocked

text \<open>The send statement \<open>c <- tok\<close>.\<close>

definition chan_send :: "Token \<Rightarrow> chan option \<Rightarrow> fault + chan option" where
  "chan_send tok c =
     (case c of
        None \<Rightarrow> Inl Blocked
      | Some ch \<Rightarrow>
          if closed ch then Inl SendOnClosed
          else if length (buf ch) < cap ch then Inr (Some (ch\<lparr>buf := buf ch @ [tok]\<rparr>))
          else Inl Blocked)"

text \<open>The receive expression \<open>tok, ok := <-c\<close>; on a closed and drained channel \<open>ok\<close> is false.\<close>

definition chan_recv :: "chan option \<Rightarrow> fault + ((Token option \<times> bool) \<times> chan option)" where
  "chan_recv c =
     (case c of
        None \<Rightarrow> Inl Blocked
      | Some ch \<Rightarrow>
          (case buf ch of
             t # rest \<Rightarrow> Inr ((Some t, True), Some (ch\<lparr>buf := rest\<rparr>))
           | [] \<Rightarrow> if closed ch then Inr ((None, False), c) else Inl Blocked))"

text \<open>The built-in \<open>close(c)\<close>.\<close>

definition chan_close :: "chan option \<Rightarrow> fault + chan option" where
  "chan_close c =
     (case c of
        None \<Rightarrow> Inl CloseOfNil
      | Some ch \<Rightarrow> if closed ch then Inl CloseOfClosed else Inr (Some (ch\<lparr>closed := True\<rparr>)))"

text \<open>
  The lexer. A \<open>StateFunc\<close> is a Go function value that returns the next function value;
  the graph of such functions may be cyclic. A function value is modelled by a name of
  type \<open>'q\<close>, and the bodies by a \<^emph>\<open>graph\<close> that maps each name to its body (see
  \<open>run\<close> below); \<open>None\<close> is the \<open>nil\<close> function.
\<close>

record 'q Lexer =
  source :: string
  start :: int
  line :: int
  position :: int
  lastWidth :: int
  startState :: "'q option"
  tokens :: "chan option"
  history :: stack

type_synonym 'q StateFunc = "'q Lexer \<Rightarrow> fault + ('q option \<times> 'q Lexer)"

definition New :: "string \<Rightarrow> 'q option \<Rightarrow> 'q Lexer" where
  "New src st =
     \<lparr>source = src, start = 0, line = 1, position = 0, lastWidth = 0, startState = st,
      tokens = None, history = newStack\<rparr>"

text \<open>
  A slice expression \<open>s[i:j]\<close> of a string: Go panics unless \<open>0 \<le> i \<le> j \<le> len(s)\<close>.
\<close>

definition slice :: "string \<Rightarrow> int \<Rightarrow> int \<Rightarrow> fault + string" where
  "slice s i j =
     (if 0 \<le> i \<and> i \<le> j \<and> j \<le> int (length s)
      then Inr (take (nat (j - i)) (drop (nat i) s))
      else Inl SliceOutOfRange)"

definition Current :: "'q Lexer \<Rightarrow> fault + string" where
  "Current l = slice (source l) (start l) (position l)"

definition checkLines :: "'q Lexer \<Rightarrow> fault + 'q Lexer" where
  "checkLines l =
     (case Current l of
        Inl e \<Rightarrow> Inl e
      | Inr val \<Rightarrow> Inr (l\<lparr>line := line l + count_lineSep val\<rparr>))"

definition Emit :: "TokenType \<Rightarrow> 'q Lexer \<Rightarrow> fault + 'q Lexer" where
  "Emit t l =
     (case Current l of
        Inl e \<Rightarrow> Inl e
      | Inr val \<Rightarrow>
          (case chan_send \<lparr>Type = t, Value = val, Position = position l, Line = line l\<rparr> (tokens l) of
             Inl e \<Rightarrow> Inl e
           | Inr c \<Rightarrow>
               (case checkLines (l\<lparr>tokens := c\<rparr>) of
                  Inl e \<Rightarrow> Inl e
                | Inr l1 \<Rightarrow> Inr (l1\<lparr>start := position l1, history := clear (history l1)\<rparr>))))"

definition Next :: "'q Lexer \<Rightarrow> fault + (rune \<times> 'q Lexer)" where
  "Next l =
     (case slice (source l) (position l) (int (length (source l))) of
        Inl e \<Rightarrow> Inl e
      | Inr str \<Rightarrow>
          (let rs = (if length str = 0 then (EOFRune, 0) else utf8_DecodeRuneInString str)
           in Inr (fst rs, l\<lparr>position := position l + snd rs, history := push (fst rs) (history l)\<rparr>)))"

definition Ignore :: "'q Lexer \<Rightarrow> fault + 'q Lexer" where
  "Ignore l =
     (case checkLines (l\<lparr>history := clear (history l)\<rparr>) of
        Inl e \<Rightarrow> Inl e
      | Inr l1 \<Rightarrow> Inr (l1\<lparr>start := position l1\<rparr>))"

definition Backup :: "'q Lexer \<Rightarrow> 'q Lexer" where
  "Backup l =
     (let r = fst (pop (history l)); l0 = l\<lparr>history := snd (pop (history l))\<rparr> in
      if r > EOFRune then
        (let size = utf8_RuneLen r; l1 = l0\<lparr>position := position l0 - size\<rparr> in
         if position l1 < start l1 then l1\<lparr>position := start l1\<rparr> else l1)
      else l0)"

definition Peek :: "'q Lexer \<Rightarrow> fault + (rune \<times> 'q Lexer)" where
  "Peek l =
     (case Next l of
        Inl e \<Rightarrow> Inl e
      | Inr (r, l1) \<Rightarrow> Inr (r, Backup l1))"

definition Accept :: "string \<Rightarrow> 'q Lexer \<Rightarrow> fault + (bool \<times> 'q Lexer)" where
  "Accept valid l =
     (case Next l of
        Inl e \<Rightarrow> Inl e
      | Inr (r, l1) \<Rightarrow>
          if strings_IndexRune valid r \<ge> 0 then Inr (True, l1)
          else Inr (False, Backup l1))"

section \<open>Facts about the library functions\<close>

lemma byte_at_bounds: "0 \<le> byte_at s i \<and> byte_at s i < 256"
  unfolding byte_at_def by (simp add: of_char_def)

lemma utf8_first_size:
  "utf8_first b < 0xF0 \<Longrightarrow> utf8_first b mod 8 = 2 \<or> utf8_first b mod 8 = 3 \<or> utf8_first b mod 8 = 4"
  by (simp add: utf8_first_def split: if_splits)

lemma decode_width:
  assumes "s \<noteq> []"
  shows "1 \<le> snd (utf8_DecodeRuneInString s) \<and> snd (utf8_DecodeRuneInString s) \<le> int (length s)"
proof -
  have n: "1 \<le> int (length s)" using assms by (cases s) simp_all
  show ?thesis
  proof (cases "utf8_first (byte_at s 0) \<ge> 0xF0")
    case True
    then show ?thesis using n assms by (simp add: utf8_DecodeRuneInString_def Let_def)
  next
    case False
    then have "utf8_first (byte_at s 0) < 0xF0" by simp
    from utf8_first_size [OF this] False n show ?thesis
      by (auto simp add: utf8_DecodeRuneInString_def Let_def)
  qed
qed

lemma decode_rune_nonneg: "0 \<le> fst (utf8_DecodeRuneInString s)"
proof -
  have "0 \<le> byte_at s 0" "0 \<le> byte_at s 1" "0 \<le> byte_at s 2" "0 \<le> byte_at s 3"
    using byte_at_bounds by blast+
  then show ?thesis
    by (simp add: utf8_DecodeRuneInString_def Let_def RuneError_def)
qed

lemma mod64: "0x80 \<le> b \<Longrightarrow> b \<le> 0xBF \<Longrightarrow> b mod 64 = b - (128::int)"
  by (rule int_mod_pos_eq [where q = 2]) simp_all

lemma mod32: "0xC0 \<le> b \<Longrightarrow> b < 0xE0 \<Longrightarrow> b mod 32 = b - (192::int)"
  by (rule int_mod_pos_eq [where q = 6]) simp_all

lemma mod16: "0xE0 \<le> b \<Longrightarrow> b < 0xF0 \<Longrightarrow> b mod 16 = b - (224::int)"
  by (rule int_mod_pos_eq [where q = 14]) simp_all

lemma mod8: "0xF0 \<le> b \<Longrightarrow> b < 0xF8 \<Longrightarrow> b mod 8 = b - (240::int)"
  by (rule int_mod_pos_eq [where q = 30]) simp_all

text \<open>
  What the decoder returns on a non-empty string: a rune together with the length of its
  own encoding, or \<open>RuneError\<close> with width 1 (a malformed encoding).
\<close>

lemma decode_wellformed_or_error:
  assumes "s \<noteq> []"
  shows "utf8_RuneLen (fst (utf8_DecodeRuneInString s)) = snd (utf8_DecodeRuneInString s) \<or>
         (fst (utf8_DecodeRuneInString s) = RuneError \<and> snd (utf8_DecodeRuneInString s) = 1)"
proof -
  have n: "\<not> int (length s) < 1" using assms by (cases s) simp_all
  have b0: "0 \<le> byte_at s 0" "byte_at s 0 < 256" using byte_at_bounds by blast+
  consider (ascii) "byte_at s 0 < 0x80"
    | (cont) "0x80 \<le> byte_at s 0" "byte_at s 0 < 0xC2"
    | (two) "0xC2 \<le> byte_at s 0" "byte_at s 0 < 0xE0"
    | (e0) "byte_at s 0 = 0xE0"
    | (e1) "0xE1 \<le> byte_at s 0" "byte_at s 0 < 0xED"
    | (ed) "byte_at s 0 = 0xED"
    | (ee) "0xEE \<le> byte_at s 0" "byte_at s 0 < 0xF0"
    | (f0) "byte_at s 0 = 0xF0"
    | (f1) "0xF1 \<le> byte_at s 0" "byte_at s 0 < 0xF4"
    | (f4) "byte_at s 0 = 0xF4"
    | (hi) "0xF4 < byte_at s 0"
    by linarith
  then show ?thesis
  proof cases
    case ascii
    then have "utf8_first (byte_at s 0) = 0xF0" by (simp add: utf8_first_def)
    with n ascii b0 show ?thesis
      by (simp add: utf8_DecodeRuneInString_def Let_def utf8_RuneLen_def)
  next
    case cont
    then have "utf8_first (byte_at s 0) = 0xF1" by (simp add: utf8_first_def)
    with n show ?thesis
      by (simp add: utf8_DecodeRuneInString_def Let_def)
  next
    case two
    then have "utf8_first (byte_at s 0) = 0x02" by (simp add: utf8_first_def)
    with n two show ?thesis
      by (auto simp add: utf8_DecodeRuneInString_def Let_def acceptRanges_def mod64 mod32
            utf8_RuneLen_def)
  next
    case e0
    then have "utf8_first (byte_at s 0) = 0x13" by (simp add: utf8_first_def)
    with n e0 show ?thesis
      by (auto simp add: utf8_DecodeRuneInString_def Let_def acceptRanges_def mod64
            utf8_RuneLen_def)
  next
    case e1
    then have "utf8_first (byte_at s 0) = 0x03" by (simp add: utf8_first_def)
    with n e1 show ?thesis
      by (auto simp add: utf8_DecodeRuneInString_def Let_def acceptRanges_def mod64 mod16
            utf8_RuneLen_def)
  next
    case ed
    then have "utf8_first (byte_at s 0) = 0x23" by (simp add: utf8_first_def)
    with n ed show ?thesis
      by (auto simp add: utf8_DecodeRuneInString_def Let_def acceptRanges_def mod64
            utf8_RuneLen_def)
  next
    case ee
    then have "utf8_first (byte_at s 0) = 0x03" by (simp add: utf8_first_def)
    with n ee show ?thesis
      by (auto simp add: utf8_DecodeRuneInString_def Let_def acceptRanges_def mod64 mod16
            utf8_RuneLen_def)
  next
    case f0
    then have "utf8_first (byte_at s 0) = 0x34" by (simp add: utf8_first_def)
    with n f0 show ?thesis
      by (auto simp add: utf8_DecodeRuneInString_def Let_def acceptRanges_def mod64
            utf8_RuneLen_def MaxRune_def)
  next
    case f1
    then have "utf8_first (byte_at s 0) = 0x04" by (simp add: utf8_first_def)
    with n f1 show ?thesis
      by (auto simp add: utf8_DecodeRuneInString_def Let_def acceptRanges_def mod64 mod8
            utf8_RuneLen_def MaxRune_def)
  next
    case f4
    then have "utf8_first (byte_at s 0) = 0x44" by (simp add: utf8_first_def)
    with n f4 show ?thesis
      by (auto simp add: utf8_DecodeRuneInString_def Let_def acceptRanges_def mod64
            utf8_RuneLen_def MaxRune_def)
  next
    case hi
    then have "utf8_first (byte_at s 0) = 0xF1" by (simp add: utf8_first_def)
    with n show ?thesis
      by (simp add: utf8_DecodeRuneInString_def Let_def)
  qed
qed

text \<open>A well-formed encoding is decoded from its own bytes alone.\<close>

lemma decode_cong:
  assumes ne: "s \<noteq> []"
    and wf: "utf8_RuneLen (fst (utf8_DecodeRuneInString s)) = snd (utf8_DecodeRuneInString s)"
    and len: "snd (utf8_DecodeRuneInString s) \<le> int (length s')"
    and b0: "byte_at s' 0 = byte_at s 0"
    and b1: "2 \<le> snd (utf8_DecodeRuneInString s) \<Longrightarrow> byte_at s' 1 = byte_at s 1"
    and b2: "3 \<le> snd (utf8_DecodeRuneInString s) \<Longrightarrow> byte_at s' 2 = byte_at s 2"
    and b3: "4 \<le> snd (utf8_DecodeRuneInString s) \<Longrightarrow> byte_at s' 3 = byte_at s 3"
  shows "utf8_DecodeRuneInString s' = utf8_DecodeRuneInString s"
proof -
  have n: "\<not> int (length s) < 1" using ne by (cases s) simp_all
  have w1: "1 \<le> snd (utf8_DecodeRuneInString s)"
    using decode_width [OF ne] by simp
  have n': "\<not> int (length s') < 1" using len w1 by linarith
  have re: "utf8_RuneLen RuneError = 3" by (simp add: utf8_RuneLen_def RuneError_def)
  consider (ascii) "byte_at s 0 < 0x80"
    | (cont) "0x80 \<le> byte_at s 0" "byte_at s 0 < 0xC2"
    | (two) "0xC2 \<le> byte_at s 0" "byte_at s 0 < 0xE0"
    | (e0) "byte_at s 0 = 0xE0"
    | (e1) "0xE1 \<le> byte_at s 0" "byte_at s 0 < 0xED"
    | (ed) "byte_at s 0 = 0xED"
    | (ee) "0xEE \<le> byte_at s 0" "byte_at s 0 < 0xF0"
    | (f0) "byte_at s 0 = 0xF0"
    | (f1) "0xF1 \<le> byte_at s 0" "byte_at s 0 < 0xF4"
    | (f4) "byte_at s 0 = 0xF4"
    | (hi) "0xF4 < byte_at s 0"
    by linarith
  then show ?thesis
  proof cases
    case ascii
    then have x: "utf8_first (byte_at s 0) = 0xF0" by (simp add: utf8_first_def)
    show ?thesis
      using n n' x b0
      by (simp add: utf8_DecodeRuneInString_def Let_def)
  next
    case cont
    then have x: "utf8_first (byte_at s 0) = 0xF1" by (simp add: utf8_first_def)
    have "utf8_DecodeRuneInString s = (RuneError, 1)"
      using n x by (simp add: utf8_DecodeRuneInString_def Let_def)
    with wf re show ?thesis by simp
  next
    case two
    then have x: "utf8_first (byte_at s 0) = 0x02" by (simp add: utf8_first_def)
    have "utf8_DecodeRuneInString s = (RuneError, 1) \<or>
          snd (utf8_DecodeRuneInString s) = utf8_first (byte_at s 0) mod 8"
      using n x by (auto simp add: utf8_DecodeRuneInString_def Let_def)
    with wf re x have w: "snd (utf8_DecodeRuneInString s) = 0x02 mod 8" by auto
    show ?thesis
      using n n' x b0 b1 b2 b3 len w wf re
      by (auto simp add: utf8_DecodeRuneInString_def Let_def acceptRanges_def)
  next
    case e0
    then have x: "utf8_first (byte_at s 0) = 0x13" by (simp add: utf8_first_def)
    have "utf8_DecodeRuneInString s = (RuneError, 1) \<or>
          snd (utf8_DecodeRuneInString s) = utf8_first (byte_at s 0) mod 8"
      using n x by (auto simp add: utf8_DecodeRuneInString_def Let_def)
    with wf re x have w: "snd (utf8_DecodeRuneInString s) = 0x13 mod 8" by auto
    show ?thesis
      using n n' x b0 b1 b2 b3 len w wf re
      by (auto simp add: utf8_DecodeRuneInString_def Let_def acceptRanges_def)
  next
    case e1
    then have x: "utf8_first (byte_at s 0) = 0x03" by (simp add: utf8_first_def)
    have "utf8_DecodeRuneInString s = (RuneError, 1) \<or>
          snd (utf8_DecodeRuneInString s) = utf8_first (byte_at s 0) mod 8"
      using n x by (auto simp add: utf8_DecodeRuneInString_def Let_def)
    with wf re x have w: "snd (utf8_DecodeRuneInString s) = 0x03 mod 8" by auto
    show ?thesis
      using n n' x b0 b1 b2 b3 len w wf re
      by (auto simp add: utf8_DecodeRuneInString_def Let_def acceptRanges_def)
  next
    case ed
    then have x: "utf8_first (byte_at s 0) = 0x23" by (simp add: utf8_first_def)
    have "utf8_DecodeRuneInString s = (RuneError, 1) \<or>
          snd (utf8_DecodeRuneInString s) = utf8_first (byte_at s 0) mod 8"
      using n x by (auto simp add: utf8_DecodeRuneInString_def Let_def)
    with wf re x have w: "snd (utf8_DecodeRuneInString s) = 0x23 mod 8" by auto
    show ?thesis
      using n n' x b0 b1 b2 b3 len w wf re
      by (auto simp add: utf8_DecodeRuneInString_def Let_def acceptRanges_def)
  next
    case ee
    then have x: "utf8_first (byte_at s 0) = 0x03" by (simp add: utf8_first_def)
    have "utf8_DecodeRuneInString s = (RuneError, 1) \<or>
          snd (utf8_DecodeRuneInString s) = utf8_first (byte_at s 0) mod 8"
      using n x by (auto simp add: utf8_DecodeRuneInString_def Let_def)
    with wf re x have w: "snd (utf8_DecodeRuneInString s) = 0x03 mod 8" by auto
    show ?thesis
      using n n' x b0 b1 b2 b3 len w wf re
      by (auto simp add: utf8_DecodeRuneInString_def Let_def acceptRanges_def)
  next
    case f0
    then have x: "utf8_first (byte_at s 0) = 0x34" by (simp add: utf8_first_def)
    have "utf8_DecodeRuneInString s = (RuneError, 1) \<or>
          snd (utf8_DecodeRuneInString s) = utf8_first (byte_at s 0) mod 8"
      using n x by (auto simp add: utf8_DecodeRuneInString_def Let_def)
    with wf re x have w: "snd (utf8_DecodeRuneInString s) = 0x34 mod 8" by auto
    show ?thesis
      using n n' x b0 b1 b2 b3 len w wf re
      by (auto simp add: utf8_DecodeRuneInString_def Let_def acceptRanges_def)
  next
    case f1
    then have x: "utf8_first (byte_at s 0) = 0x04" by (simp add: utf8_first_def)
    have "utf8_DecodeRuneInString s = (RuneError, 1) \<or>
          snd (utf8_DecodeRuneInString s) = utf8_first (byte_at s 0) mod 8"
      using n x by (auto simp add: utf8_DecodeRuneInString_def Let_def)
    with wf re x have w: "snd (utf8_DecodeRuneInString s) = 0x04 mod 8" by auto
    show ?thesis
      using n n' x b0 b1 b2 b3 len w wf re
      by (auto simp add: utf8_DecodeRuneInString_def Let_def acceptRanges_def)
  next
    case f4
    then have x: "utf8_first (byte_at s 0) = 0x44" by (simp add: utf8_first_def)
    have "utf8_DecodeRuneInString s = (RuneError, 1) \<or>
          snd (utf8_DecodeRuneInString s) = utf8_first (byte_at s 0) mod 8"
      using n x by (auto simp add: utf8_DecodeRuneInString_def Let_def)
    with wf re x have w: "snd (utf8_DecodeRuneInString s) = 0x44 mod 8" by auto
    show ?thesis
      using n n' x b0 b1 b2 b3 len w wf re
      by (auto simp add: utf8_DecodeRuneInString_def Let_def acceptRanges_def)
  next
    case hi
    then have x: "utf8_first (byte_at s 0) = 0xF1" by (simp add: utf8_first_def)
    have "utf8_DecodeRuneInString s = (RuneError, 1)"
      using n x by (simp add: utf8_DecodeRuneInString_def Let_def)
    with wf re show ?thesis by simp
  qed
qed

lemma IndexRune_EOFRune: "strings_IndexRune valid EOFRune = -1"
  by (simp add: strings_IndexRune_def RuneError_def utf8_ValidRune_def EOFRune_def)

lemma IsSpace_EOFRune: "\<not> unicode_IsSpace EOFRune"
  by (simp add: unicode_IsSpace_def EOFRune_def)

text \<open>\<open>Next\<close> by the place of \<open>position\<close>: outside the source, at its end, inside it.\<close>

lemma Next_outside:
  "position l < 0 \<or> int (length (source l)) < position l \<Longrightarrow> Next l = Inl SliceOutOfRange"
  by (auto simp add: Next_def slice_def)

lemma Next_at_end:
  "position l = int (length (source l)) \<Longrightarrow>
   Next l = Inr (EOFRune, l\<lparr>history := EOFRune # history l\<rparr>)"
  by (simp add: Next_def slice_def push_def)

lemma Next_inside:
  assumes "0 \<le> position l" and "position l < int (length (source l))"
  shows "Next l =
           Inr (fst (utf8_DecodeRuneInString (drop (nat (position l)) (source l))),
                l\<lparr>position := position l + snd (utf8_DecodeRuneInString (drop (nat (position l)) (source l))),
                  history := fst (utf8_DecodeRuneInString (drop (nat (position l)) (source l))) # history l\<rparr>)"
proof -
  from assms have "\<not> length (source l) \<le> nat (position l)" by linarith
  with assms show ?thesis by (simp add: Next_def slice_def push_def Let_def)
qed

lemma decode_at_width:
  assumes "0 \<le> p" and "p < int (length src)"
  shows "1 \<le> snd (utf8_DecodeRuneInString (drop (nat p) src)) \<and>
         p + snd (utf8_DecodeRuneInString (drop (nat p) src)) \<le> int (length src)"
proof -
  from assms have "drop (nat p) src \<noteq> []" by simp
  from decode_width [OF this] assms show ?thesis by simp
qed

lemma Next_source: "Next l = Inr (r, l1) \<Longrightarrow> source l1 = source l"
  by (auto simp add: Next_def Let_def split: sum.splits)

lemma Next_advances:
  assumes "Next l = Inr (r, l1)" and "r \<noteq> EOFRune"
  shows "position l < position l1 \<and> position l1 \<le> int (length (source l))"
proof -
  have "\<not> (position l < 0 \<or> int (length (source l)) < position l)"
    using assms(1) Next_outside [of l] by auto
  moreover have "position l \<noteq> int (length (source l))"
    using assms Next_at_end [of l] by auto
  ultimately have in_src: "0 \<le> position l" "position l < int (length (source l))"
    by auto
  from Next_inside [OF in_src] assms(1) decode_at_width [OF in_src] show ?thesis
    by auto
qed

lemma Next_EOFRune_stays:
  assumes "Next l = Inr (EOFRune, l1)"
  shows "position l1 = position l"
proof -
  have "\<not> (position l < 0 \<or> int (length (source l)) < position l)"
    using assms Next_outside [of l] by auto
  moreover have "\<not> (0 \<le> position l \<and> position l < int (length (source l)))"
    using assms Next_inside [of l] decode_rune_nonneg [of "drop (nat (position l)) (source l)"]
    by (auto simp add: EOFRune_def)
  ultimately have "position l = int (length (source l))" by auto
  from Next_at_end [OF this] assms show ?thesis by auto
qed

section \<open>The loops of the lexer\<close>

text \<open>
  \<open>AcceptRun\<close>: the \<open>for\<close> loop calls \<open>Next\<close> and counts while the rune is in \<open>valid\<close>;
  the rune that ends the loop has been read, and \<open>Backup\<close> follows. The loop ends since
  every rune it accepts moves \<open>position\<close> towards the end of the source.
\<close>

function AcceptRun_loop :: "string \<Rightarrow> 'q Lexer \<Rightarrow> int \<Rightarrow> fault + (int \<times> 'q Lexer)" where
  "AcceptRun_loop valid l n =
     (case Next l of
        Inl e \<Rightarrow> Inl e
      | Inr (r, l1) \<Rightarrow>
          if strings_IndexRune valid r \<ge> 0 then AcceptRun_loop valid l1 (n + 1)
          else Inr (n, l1))"
  by pat_completeness auto
termination
proof (relation "measure (\<lambda>(valid, l, n). nat (int (length (source l)) - position l))")
  show "wf (measure (\<lambda>(valid, l, n). nat (int (length (source l)) - position l)))"
    by simp
next
  fix valid :: string and l :: "'q Lexer" and n :: int and x2 x1 x2a
  assume a: "Next l = Inr x2" "(x1, x2a) = x2" "0 \<le> strings_IndexRune valid x1"
  then have nx: "Next l = Inr (x1, x2a)" by simp
  from a(3) have "x1 \<noteq> EOFRune" using IndexRune_EOFRune [of valid] by auto
  from Next_advances [OF nx this] Next_source [OF nx]
  show "((valid, x2a, n + 1), valid, l, n)
          \<in> measure (\<lambda>(valid, l, n). nat (int (length (source l)) - position l))"
    by simp
qed

definition AcceptRun :: "string \<Rightarrow> 'q Lexer \<Rightarrow> fault + (int \<times> 'q Lexer)" where
  "AcceptRun valid l =
     (case AcceptRun_loop valid l 0 of
        Inl e \<Rightarrow> Inl e
      | Inr (n, l1) \<Rightarrow> Inr (n, Backup l1))"

text \<open>
  \<open>SkipWhitespace\<close>: the test \<open>!unicode.IsSpace(r)\<close> comes first, the test
  \<open>r == EOFRune\<close> second.
\<close>

function SkipWhitespace :: "'q Lexer \<Rightarrow> fault + 'q Lexer" where
  "SkipWhitespace l =
     (case Next l of
        Inl e \<Rightarrow> Inl e
      | Inr (r, l1) \<Rightarrow>
          if \<not> unicode_IsSpace r then Inr (Backup l1)
          else if r = EOFRune then Emit EOFToken l1
          else SkipWhitespace l1)"
  by pat_completeness auto
termination
proof (relation "measure (\<lambda>l. nat (int (length (source l)) - position l))")
  show "wf (measure (\<lambda>l. nat (int (length (source l)) - position l)))"
    by simp
next
  fix l :: "'q Lexer" and x2 x1 x2a
  assume a: "Next l = Inr x2" "(x1, x2a) = x2" "\<not> \<not> unicode_IsSpace x1" "x1 \<noteq> EOFRune"
  then have nx: "Next l = Inr (x1, x2a)" by simp
  from Next_advances [OF nx a(4)] Next_source [OF nx]
  show "(x2a, l) \<in> measure (\<lambda>l. nat (int (length (source l)) - position l))"
    by simp
qed

declare AcceptRun_loop.simps [simp del] SkipWhitespace.simps [simp del]

section \<open>Errors, the runner and the consumer\<close>

text \<open>
  \<open>Error(format, args...)\<close>: the parameter \<open>msg\<close> stands for the string
  \<open>fmt.Sprintf(format, args...)\<close>. The result \<open>None\<close> is the \<open>nil\<close> state function.
\<close>

definition Error :: "string \<Rightarrow> 'q Lexer \<Rightarrow> fault + ('q option \<times> 'q Lexer)" where
  "Error msg l =
     (case chan_send \<lparr>Type = ErrorToken, Value = msg, Position = position l, Line = line l\<rparr> (tokens l) of
        Inl e \<Rightarrow> Inl e
      | Inr c \<Rightarrow> Inr (None, l\<lparr>tokens := c\<rparr>))"

definition NextToken :: "'q Lexer \<Rightarrow> fault + ((Token option \<times> bool) \<times> 'q Lexer)" where
  "NextToken l =
     (case chan_recv (tokens l) of
        Inl e \<Rightarrow> Inl e
      | Inr ((tok, ok), c) \<Rightarrow>
          if ok then Inr ((tok, False), l\<lparr>tokens := c\<rparr>)
          else Inr ((None, True), l\<lparr>tokens := c\<rparr>))"

text \<open>
  The loop of \<open>run\<close>: \<open>for state != nil { state = state(l) }\<close>. The graph of the caller
  may never reach \<open>nil\<close>; then the loop does not return, which is the value \<open>None\<close>.
\<close>

partial_function (option) run_loop ::
  "('q \<Rightarrow> 'q StateFunc) \<Rightarrow> 'q option \<Rightarrow> 'q Lexer \<Rightarrow> (fault + 'q Lexer) option" where
  [code]: "run_loop graph state l =
     (case state of
        None \<Rightarrow> Some (Inr l)
      | Some q \<Rightarrow>
          (case graph q l of
             Inl e \<Rightarrow> Some (Inl e)
           | Inr (state1, l1) \<Rightarrow> run_loop graph state1 l1))"

definition run :: "('q \<Rightarrow> 'q StateFunc) \<Rightarrow> 'q Lexer \<Rightarrow> (fault + 'q Lexer) option" where
  "run graph l =
     (case run_loop graph (startState l) l of
        None \<Rightarrow> None
      | Some (Inl e) \<Rightarrow> Some (Inl e)
      | Some (Inr l1) \<Rightarrow>
          (case chan_close (tokens l1) of
             Inl e \<Rightarrow> Some (Inl e)
           | Inr c \<Rightarrow> Some (Inr (l1\<lparr>tokens := c\<rparr>))))"

text \<open>
  \<open>StartSync\<close> makes the channel, with half the length of the source (at least 1) as its
  capacity, and calls \<open>run\<close>.
\<close>

definition make_tokens :: "'q Lexer \<Rightarrow> 'q Lexer" where
  "make_tokens l =
     (let buffSize = int (length (source l)) div 2;
          buffSize = (if buffSize \<le> 0 then 1 else buffSize)
      in l\<lparr>tokens := Some \<lparr>buf = [], cap = nat buffSize, closed = False\<rparr>\<rparr>)"

definition StartSync :: "('q \<Rightarrow> 'q StateFunc) \<Rightarrow> 'q Lexer \<Rightarrow> (fault + 'q Lexer) option" where
  "StartSync graph l = run graph (make_tokens l)"

text \<open>\<open>k\<close> calls of \<open>NextToken\<close> in a row, with what each returned.\<close>

fun pull :: "nat \<Rightarrow> 'q Lexer \<Rightarrow> fault + ((Token option \<times> bool) list \<times> 'q Lexer)" where
  "pull 0 l = Inr ([], l)"
| "pull (Suc k) l =
     (case NextToken l of
        Inl e \<Rightarrow> Inl e
      | Inr (res, l1) \<Rightarrow>
          (case pull k l1 of
             Inl e \<Rightarrow> Inl e
           | Inr (rest, l2) \<Rightarrow> Inr (res # rest, l2)))"

text \<open>
  The producer and the consumer on one channel. A schedule is the sequence in which the
  sends of the producer (in \<open>Emit\<close> and \<open>Error\<close>), the \<open>close\<close> of \<open>run\<close> and the
  receives of the consumer (in \<open>NextToken\<close>) take place; the lexer itself is touched by
  the producer alone. \<open>chan_run\<close> makes the steps of a schedule on a channel and collects
  what the receives return; \<open>sent\<close> is the tokens of the sends, in their order.
\<close>

datatype chan_action = Send Token | Recv | Close

fun chan_run :: "chan_action list \<Rightarrow> chan option \<Rightarrow> fault + ((Token option \<times> bool) list \<times> chan option)" where
  "chan_run [] c = Inr ([], c)"
| "chan_run (Send t # as) c =
     (case chan_send t c of
        Inl e \<Rightarrow> Inl e
      | Inr c1 \<Rightarrow> chan_run as c1)"
| "chan_run (Recv # as) c =
     (case chan_recv c of
        Inl e \<Rightarrow> Inl e
      | Inr (res, c1) \<Rightarrow>
          (case chan_run as c1 of
             Inl e \<Rightarrow> Inl e
           | Inr (rs, c2) \<Rightarrow> Inr (res # rs, c2)))"
| "chan_run (Close # as) c =
     (case chan_close c of
        Inl e \<Rightarrow> Inl e
      | Inr c1 \<Rightarrow> chan_run as c1)"

fun sent :: "chan_action list \<Rightarrow> Token list" where
  "sent [] = []"
| "sent (Send t # as) = t # sent as"
| "sent (Recv # as) = sent as"
| "sent (Close # as) = sent as"

section \<open>The state functions of the tests\<close>

text \<open>The graph of \<open>lexer_test.go\<close>; its token types are \<open>iota\<close> constants.\<close>

datatype test_state = NumberState | IdentState | NewlineState | WhitespaceState

definition NumberToken :: TokenType where
  "NumberToken = 0"

definition OpToken :: TokenType where
  "OpToken = 1"

definition IdentToken :: TokenType where
  "IdentToken = 2"

text \<open>The loop of \<open>IdentState\<close>: \<open>for (r >= 'a' && r <= 'z') || r == '_' { r = l.Next() }\<close>.\<close>

function IdentState_loop :: "rune \<Rightarrow> 'q Lexer \<Rightarrow> fault + 'q Lexer" where
  "IdentState_loop r l =
     (if (r \<ge> 0x61 \<and> r \<le> 0x7A) \<or> r = 0x5F then
        (case Next l of
           Inl e \<Rightarrow> Inl e
         | Inr (r1, l1) \<Rightarrow> IdentState_loop r1 l1)
      else Inr l)"
  by pat_completeness auto

termination
proof (relation "measure (\<lambda>(r, l). 2 * nat (int (length (source l)) - position l)
                       + (if (r \<ge> 0x61 \<and> r \<le> 0x7A) \<or> r = 0x5F then 1 else 0))")
  show "wf (measure (\<lambda>(r, l). 2 * nat (int (length (source l)) - position l)
                       + (if (r \<ge> 0x61 \<and> r \<le> 0x7A) \<or> r = 0x5F then 1 else 0)))"
    by simp
next
  fix r :: rune and l :: "'q Lexer" and x2 x1 x2a
  assume a: "(r \<ge> 0x61 \<and> r \<le> 0x7A) \<or> r = 0x5F" "Next l = Inr x2" "(x1, x2a) = x2"
  then have nx: "Next l = Inr (x1, x2a)" by simp
  show "((x1, x2a), r, l)
          \<in> measure (\<lambda>(r, l). 2 * nat (int (length (source l)) - position l)
                       + (if (r \<ge> 0x61 \<and> r \<le> 0x7A) \<or> r = 0x5F then 1 else 0))"
  proof (cases "x1 = EOFRune")
    case True
    with nx have "position x2a = position l" "source x2a = source l"
      using Next_EOFRune_stays [of l x2a] Next_source [of l x1 x2a] by simp_all
    with True a(1) show ?thesis by (simp add: EOFRune_def)
  next
    case False
    from Next_advances [OF nx False] Next_source [OF nx] a(1) show ?thesis
      by auto
  qed
qed

declare IdentState_loop.simps [simp del]

text \<open>
  The parameter \<open>quote\<close> stands for the message that \<open>Error\<close> formats when
  \<open>WhitespaceState\<close> calls it with \<open>fmt.Sprintf("unexpected token %q", r)\<close>.
  \<open>WhitespaceState\<close> drops the result of \<open>Error\<close> and of \<open>Accept\<close>.
\<close>

fun test_graph :: "(rune \<Rightarrow> string) \<Rightarrow> test_state \<Rightarrow> test_state StateFunc" where
  "test_graph quote NumberState l =
     (case AcceptRun ''0123456789'' l of
        Inl e \<Rightarrow> Inl e
      | Inr (n, l1) \<Rightarrow>
          (case Emit NumberToken l1 of
             Inl e \<Rightarrow> Inl e
           | Inr l2 \<Rightarrow>
               (case Peek l2 of
                  Inl e \<Rightarrow> Inl e
                | Inr (r, l3) \<Rightarrow>
                    if r = 0x2E then
                      (case Next l3 of
                         Inl e \<Rightarrow> Inl e
                       | Inr (r1, l4) \<Rightarrow>
                           (case Emit OpToken l4 of
                              Inl e \<Rightarrow> Inl e
                            | Inr l5 \<Rightarrow> Inr (Some IdentState, l5)))
                    else Inr (None, l3))))"
| "test_graph quote IdentState l =
     (case Next l of
        Inl e \<Rightarrow> Inl e
      | Inr (r, l1) \<Rightarrow>
          (case IdentState_loop r l1 of
             Inl e \<Rightarrow> Inl e
           | Inr l2 \<Rightarrow>
               (case Emit IdentToken (Backup l2) of
                  Inl e \<Rightarrow> Inl e
                | Inr l3 \<Rightarrow> Inr (Some WhitespaceState, l3))))"
| "test_graph quote NewlineState l =
     (case AcceptRun ''0123456789'' l of
        Inl e \<Rightarrow> Inl e
      | Inr (n, l1) \<Rightarrow>
          (case Emit NumberToken l1 of
             Inl e \<Rightarrow> Inl e
           | Inr l2 \<Rightarrow>
               (case SkipWhitespace l2 of
                  Inl e \<Rightarrow> Inl e
                | Inr l3 \<Rightarrow>
                    (case Ignore l3 of
                       Inl e \<Rightarrow> Inl e
                     | Inr l4 \<Rightarrow>
                         (case AcceptRun ''0123456789'' l4 of
                            Inl e \<Rightarrow> Inl e
                          | Inr (m, l5) \<Rightarrow>
                              (case Emit NumberToken l5 of
                                 Inl e \<Rightarrow> Inl e
                               | Inr l6 \<Rightarrow>
                                   (case SkipWhitespace l6 of
                                      Inl e \<Rightarrow> Inl e
                                    | Inr l7 \<Rightarrow> Inr (None, l7))))))))"
| "test_graph quote WhitespaceState l =
     (case Next l of
        Inl e \<Rightarrow> Inl e
      | Inr (r, l1) \<Rightarrow>
          if r = EOFRune then Inr (None, l1)
          else if r \<noteq> 0x20 \<and> r \<noteq> 0x09 \<and> r \<noteq> 0x0A \<and> r \<noteq> 0x0D then
            (case Error (quote r) l1 of
               Inl e \<Rightarrow> Inl e
             | Inr (st, l2) \<Rightarrow> Inr (None, l2))
          else
            (case Accept [CHR 0x20, CHR 0x09, CHR 0x0A, CHR 0x0D] l1 of
               Inl e \<Rightarrow> Inl e
             | Inr (ok, l2) \<Rightarrow>
                 (case Ignore l2 of
                    Inl e \<Rightarrow> Inl e
                  | Inr l3 \<Rightarrow> Inr (Some NumberState, l3))))"

section \<open>The runes of a string\<close>

text \<open>
  The runes of a string as Go reads them (the conversion \<open>[]rune(s)\<close>, the loop
  \<open>for range s\<close>): decoded one after the other, a malformed byte giving \<open>RuneError\<close>.
  \<open>utf8.RuneCountInString(s)\<close> is the length of this list.
\<close>

function runes :: "string \<Rightarrow> rune list" where
  "runes s =
     (if s = [] then []
      else fst (utf8_DecodeRuneInString s) # runes (drop (nat (snd (utf8_DecodeRuneInString s))) s))"
  by pat_completeness auto
termination
proof (relation "measure length")
  show "wf (measure (length :: string \<Rightarrow> nat))" by simp
next
  fix s :: string
  assume "s \<noteq> []"
  from decode_width [OF this] this
  show "(drop (nat (snd (utf8_DecodeRuneInString s))) s, s) \<in> measure length"
    by simp
qed

text \<open>
  Well-formed UTF-8 (what \<open>utf8.ValidString\<close> accepts): every rune of the string is
  decoded with the width of its own encoding, so none comes from a malformed byte.
\<close>

function wellformed_utf8 :: "string \<Rightarrow> bool" where
  "wellformed_utf8 s =
     (if s = [] then True
      else utf8_RuneLen (fst (utf8_DecodeRuneInString s)) = snd (utf8_DecodeRuneInString s) \<and>
           wellformed_utf8 (drop (nat (snd (utf8_DecodeRuneInString s))) s))"
  by pat_completeness auto
termination
proof (relation "measure length")
  show "wf (measure (length :: string \<Rightarrow> nat))" by simp
next
  fix s :: string
  assume "s \<noteq> []"
  from decode_width [OF this] this
  show "\<And>x. (drop (nat (snd (utf8_DecodeRuneInString s))) s, s) \<in> measure length"
    by simp
qed

declare runes.simps [simp del] wellformed_utf8.simps [simp del]

section \<open>Sequences of engine calls\<close>

text \<open>
  The calls a state function can make on the lexer, and the call the consumer makes
  (\<open>NextToken\<close>); \<open>apply_ops\<close> makes a sequence of calls, as straight-line code would,
  and stops at the first call that does not return.
\<close>

datatype engine_op =
    OpNext | OpBackup | OpPeek | OpAccept string | OpAcceptRun string | OpSkipWhitespace
  | OpEmit TokenType | OpIgnore | OpError string | OpNextToken

fun apply_op :: "engine_op \<Rightarrow> 'q Lexer \<Rightarrow> fault + 'q Lexer" where
  "apply_op OpNext l = map_sum id snd (Next l)"
| "apply_op OpBackup l = Inr (Backup l)"
| "apply_op OpPeek l = map_sum id snd (Peek l)"
| "apply_op (OpAccept valid) l = map_sum id snd (Accept valid l)"
| "apply_op (OpAcceptRun valid) l = map_sum id snd (AcceptRun valid l)"
| "apply_op OpSkipWhitespace l = SkipWhitespace l"
| "apply_op (OpEmit t) l = Emit t l"
| "apply_op OpIgnore l = Ignore l"
| "apply_op (OpError msg) l = map_sum id snd (Error msg l)"
| "apply_op OpNextToken l = map_sum id snd (NextToken l)"

fun apply_ops :: "engine_op list \<Rightarrow> 'q Lexer \<Rightarrow> fault + 'q Lexer" where
  "apply_ops [] l = Inr l"
| "apply_ops (op # ops) l =
     (case apply_op op l of
        Inl e \<Rightarrow> Inl e
      | Inr l1 \<Rightarrow> apply_ops ops l1)"

section \<open>The cursor invariant\<close>

text \<open>\<open>0 \<le> start \<le> position \<le> len(source)\<close> and \<open>line \<ge> 1\<close>.\<close>

definition cursor_inv :: "'q Lexer \<Rightarrow> bool" where
  "cursor_inv l =
     (0 \<le> start l \<and> start l \<le> position l \<and> position l \<le> int (length (source l)) \<and> 1 \<le> line l)"

text \<open>The channel of the lexer is made, open and has room for one more token.\<close>

definition can_send :: "'q Lexer \<Rightarrow> bool" where
  "can_send l =
     (case tokens l of
        None \<Rightarrow> False
      | Some ch \<Rightarrow> \<not> closed ch \<and> length (buf ch) < cap ch)"

text \<open>The tokens in the channel of the lexer, oldest first.\<close>

definition queued :: "'q Lexer \<Rightarrow> Token list" where
  "queued l = (case tokens l of None \<Rightarrow> [] | Some ch \<Rightarrow> buf ch)"

text \<open>
  The cursor invariant together with what the history holds in every state the lexer can
  reach: \<open>EOFRune\<close> and runes that have an encoding.
\<close>

definition engine_inv :: "'q Lexer \<Rightarrow> bool" where
  "engine_inv l =
     (cursor_inv l \<and> list_all (\<lambda>r. r = EOFRune \<or> 1 \<le> utf8_RuneLen r) (history l))"

text \<open>
  The pending span, between \<open>start\<close> and \<open>position\<close> (what \<open>Current\<close> returns when the
  cursor invariant holds).
\<close>

definition pending :: "'q Lexer \<Rightarrow> string" where
  "pending l = take (nat (position l - start l)) (drop (nat (start l)) (source l))"

text \<open>
  What holds in every reachable state on a source of well-formed UTF-8: \<open>start\<close> and
  \<open>position\<close> lie between runes, and the history is the runes of the pending span, last
  rune on top, below the \<open>EOFRune\<close>s that calls of \<open>Next\<close> at the end of the source
  have pushed.
\<close>

definition hist_inv :: "'q Lexer \<Rightarrow> bool" where
  "hist_inv l =
     (cursor_inv l \<and>
      wellformed_utf8 (drop (nat (position l)) (source l)) \<and>
      wellformed_utf8 (pending l) \<and>
      (\<exists>k. history l = replicate k EOFRune @ rev (runes (pending l)) \<and>
           (0 < k \<longrightarrow> position l = int (length (source l)))))"

section \<open>Boundary operations: Emit, Ignore and Error\<close>

lemma Current_inv:
  "cursor_inv l \<Longrightarrow>
   Current l = Inr (take (nat (position l - start l)) (drop (nat (start l)) (source l)))"
  by (simp add: Current_def slice_def cursor_inv_def)

lemma count_lineSep_nonneg: "0 \<le> count_lineSep val"
  by (simp add: count_lineSep_def)

lemma Emit_result:
  assumes "cursor_inv l" and "tokens l = Some ch" and "\<not> closed ch" and "length (buf ch) < cap ch"
    and "Current l = Inr val"
  shows "Emit t l =
           Inr (l\<lparr>tokens := Some (ch\<lparr>buf := buf ch @
                        [\<lparr>Type = t, Value = val, Position = position l, Line = line l\<rparr>]\<rparr>),
                  line := line l + count_lineSep val,
                  start := position l,
                  history := []\<rparr>)"
  using assms by (simp add: Emit_def chan_send_def checkLines_def Current_def clear_def)

lemma Ignore_result:
  assumes "Current l = Inr val"
  shows "Ignore l = Inr (l\<lparr>history := [], line := line l + count_lineSep val, start := position l\<rparr>)"
  using assms by (simp add: Ignore_def checkLines_def Current_def clear_def)

lemma Backup_empty_history: "history l = [] \<Longrightarrow> Backup l = l"
  by (simp add: Backup_def pop_def Let_def)

lemma Error_result:
  assumes "tokens l = Some ch" and "\<not> closed ch" and "length (buf ch) < cap ch"
  shows "Error msg l =
           Inr (None, l\<lparr>tokens := Some (ch\<lparr>buf := buf ch @
                        [\<lparr>Type = ErrorToken, Value = msg, Position = position l, Line = line l\<rparr>]\<rparr>)\<rparr>)"
  using assms by (simp add: Error_def chan_send_def)

text \<open>
  C5. \<open>Emit(t)\<close>, on a lexer that satisfies the cursor invariant and whose channel has room,
  sends a token whose Value is the pending span \<open>source[start:position]\<close>, whose Position is
  \<open>position\<close> and whose Line is \<open>line\<close> as it was before the call; the lexer it leaves has
  \<open>line\<close> increased by the number of newlines of the span, \<open>start = position\<close> and an empty
  history. The graph of \<open>TestNewlines\<close> on the source of three lines sends the tokens
  \<open>123\<close> with line 1 and \<open>456\<close> with line 2.
\<close>

theorem C5_Emit_token_and_lines:
  assumes "cursor_inv l" and "tokens l = Some ch" and "\<not> closed ch" and "length (buf ch) < cap ch"
  shows "(\<exists>val. Current l = Inr val \<and>
            val = take (nat (position l - start l)) (drop (nat (start l)) (source l)) \<and>
            Emit t l =
              Inr (l\<lparr>tokens := Some (ch\<lparr>buf := buf ch @
                           [\<lparr>Type = t, Value = val, Position = position l, Line = line l\<rparr>]\<rparr>),
                     line := line l + count_lineSep val,
                     start := position l,
                     history := []\<rparr>)) \<and>
         map_option (map_sum id queued)
           (StartSync (test_graph quote)
              (New (''123'' @ [CHR 0x0A] @ ''456'' @ [CHR 0x0A] @ ''789'') (Some NewlineState)))
           = Some (Inr [\<lparr>Type = NumberToken, Value = ''123'', Position = 3, Line = 1\<rparr>,
                        \<lparr>Type = NumberToken, Value = ''456'', Position = 7, Line = 2\<rparr>])"
proof
  from Current_inv [OF assms(1)] Emit_result [OF assms]
  show "\<exists>val. Current l = Inr val \<and>
            val = take (nat (position l - start l)) (drop (nat (start l)) (source l)) \<and>
            Emit t l =
              Inr (l\<lparr>tokens := Some (ch\<lparr>buf := buf ch @
                           [\<lparr>Type = t, Value = val, Position = position l, Line = line l\<rparr>]\<rparr>),
                     line := line l + count_lineSep val,
                     start := position l,
                     history := []\<rparr>)"
    by simp
next
  show "map_option (map_sum id queued)
           (StartSync (test_graph quote)
              (New (''123'' @ [CHR 0x0A] @ ''456'' @ [CHR 0x0A] @ ''789'') (Some NewlineState)))
           = Some (Inr [\<lparr>Type = NumberToken, Value = ''123'', Position = 3, Line = 1\<rparr>,
                        \<lparr>Type = NumberToken, Value = ''456'', Position = 7, Line = 2\<rparr>])"
    by code_simp
qed

theorem C5_Emit_token_and_lines_witness:
  "cursor_inv \<lparr>source = ''a'' @ [CHR 0x0A] @ ''bc'', start = 0, line = 1, position = 3, lastWidth = 0,
               startState = None :: unit option,
               tokens = Some \<lparr>buf = [], cap = 2, closed = False\<rparr>, history = [0x62, 0x0A, 0x61]\<rparr> \<and>
   Emit 7 \<lparr>source = ''a'' @ [CHR 0x0A] @ ''bc'', start = 0, line = 1, position = 3, lastWidth = 0,
           startState = None :: unit option,
           tokens = Some \<lparr>buf = [], cap = 2, closed = False\<rparr>, history = [0x62, 0x0A, 0x61]\<rparr>
     = Inr \<lparr>source = ''a'' @ [CHR 0x0A] @ ''bc'', start = 3, line = 2, position = 3, lastWidth = 0,
            startState = None,
            tokens = Some \<lparr>buf = [\<lparr>Type = 7, Value = ''a'' @ [CHR 0x0A] @ ''b'', Position = 3, Line = 1\<rparr>],
                           cap = 2, closed = False\<rparr>,
            history = []\<rparr>"
proof -
  let ?l = "\<lparr>source = ''a'' @ [CHR 0x0A] @ ''bc'', start = 0, line = 1, position = 3, lastWidth = 0,
             startState = None :: unit option,
             tokens = Some \<lparr>buf = [], cap = 2, closed = False\<rparr>, history = [0x62, 0x0A, 0x61]\<rparr>"
  let ?ch = "\<lparr>buf = [], cap = 2, closed = False\<rparr>"
  have h1: "cursor_inv ?l" by (simp add: cursor_inv_def)
  have h2: "tokens ?l = Some ?ch" by simp
  have h3: "\<not> closed ?ch" by simp
  have h4: "length (buf ?ch) < cap ?ch" by simp
  from C5_Emit_token_and_lines [OF h1 h2 h3 h4, of 7 "\<lambda>r. []"] h1 show ?thesis
    by (simp add: count_lineSep_def)
qed

text \<open>
  C7. After \<open>Emit\<close> and after \<open>Ignore\<close> (on a lexer that satisfies the cursor invariant, for
  \<open>Emit\<close> with room in the channel) the history is empty, and \<open>Backup\<close> then changes
  nothing: the lexer, so its position and its pending span, stay as they are.
\<close>

theorem C7_boundary_clears_history:
  assumes "cursor_inv l"
  shows "(can_send l \<longrightarrow>
            (\<exists>l1. Emit t l = Inr l1 \<and> history l1 = [] \<and> Backup l1 = l1 \<and>
                   position (Backup l1) = position l1 \<and> Current (Backup l1) = Current l1)) \<and>
         (\<exists>l2. Ignore l = Inr l2 \<and> history l2 = [] \<and> Backup l2 = l2 \<and>
                 position (Backup l2) = position l2 \<and> Current (Backup l2) = Current l2)"
proof (intro conjI impI)
  assume "can_send l"
  then obtain ch where ch: "tokens l = Some ch" "\<not> closed ch" "length (buf ch) < cap ch"
    by (auto simp add: can_send_def split: option.splits)
  from Emit_result [OF assms ch Current_inv [OF assms], of t]
  show "\<exists>l1. Emit t l = Inr l1 \<and> history l1 = [] \<and> Backup l1 = l1 \<and>
               position (Backup l1) = position l1 \<and> Current (Backup l1) = Current l1"
    by (simp add: Backup_empty_history)
next
  from Ignore_result [OF Current_inv [OF assms]]
  show "\<exists>l2. Ignore l = Inr l2 \<and> history l2 = [] \<and> Backup l2 = l2 \<and>
               position (Backup l2) = position l2 \<and> Current (Backup l2) = Current l2"
    by (simp add: Backup_empty_history)
qed

theorem C7_boundary_clears_history_witness:
  "(\<exists>l1. Emit 7 \<lparr>source = ''abc'', start = 0, line = 1, position = 2, lastWidth = 0,
                  startState = None :: unit option,
                  tokens = Some \<lparr>buf = [], cap = 1, closed = False\<rparr>, history = [0x62, 0x61]\<rparr> = Inr l1 \<and>
          history l1 = [] \<and> Backup l1 = l1) \<and>
   (\<exists>l2. Ignore \<lparr>source = ''abc'', start = 0, line = 1, position = 2, lastWidth = 0,
                  startState = None :: unit option,
                  tokens = Some \<lparr>buf = [], cap = 1, closed = False\<rparr>, history = [0x62, 0x61]\<rparr> = Inr l2 \<and>
          history l2 = [] \<and> Backup l2 = l2)"
proof -
  let ?l = "\<lparr>source = ''abc'', start = 0, line = 1, position = 2, lastWidth = 0,
             startState = None :: unit option,
             tokens = Some \<lparr>buf = [], cap = 1, closed = False\<rparr>, history = [0x62, 0x61]\<rparr>"
  have h1: "cursor_inv ?l" by (simp add: cursor_inv_def)
  have h2: "can_send ?l" by (simp add: can_send_def)
  from C7_boundary_clears_history [OF h1, of 7] h2 show ?thesis
    by blast
qed

text \<open>
  C8. \<open>Error(format, args...)\<close>, when the channel has room, sends exactly one token: its
  type is \<open>ErrorToken = -1\<close>, its Value the formatted message, its Position and Line the
  current \<open>position\<close> and \<open>line\<close>; nothing else is added to the channel. \<open>Error\<close> returns
  the \<open>nil\<close> state function, so when a state function returns the result of \<open>Error\<close> the
  loop of \<open>run\<close> ends there, and \<open>run\<close> closes the channel with the error token as its
  last token.
\<close>

theorem C8_Error_token_stops_run:
  assumes "tokens l = Some ch" and "\<not> closed ch" and "length (buf ch) < cap ch"
  shows "Error msg l =
           Inr (None, l\<lparr>tokens := Some (ch\<lparr>buf := buf ch @
                        [\<lparr>Type = -1, Value = msg, Position = position l, Line = line l\<rparr>]\<rparr>)\<rparr>) \<and>
         (\<forall>graph q l0. startState l0 = Some q \<and> graph q l0 = Error msg l \<longrightarrow>
            run graph l0 =
              Some (Inr (l\<lparr>tokens := Some (ch\<lparr>buf := buf ch @
                           [\<lparr>Type = -1, Value = msg, Position = position l, Line = line l\<rparr>],
                           closed := True\<rparr>)\<rparr>)))"
proof (intro conjI allI impI)
  show e: "Error msg l =
           Inr (None, l\<lparr>tokens := Some (ch\<lparr>buf := buf ch @
                        [\<lparr>Type = -1, Value = msg, Position = position l, Line = line l\<rparr>]\<rparr>)\<rparr>)"
    using Error_result [OF assms] by (simp add: ErrorToken_def)
  fix graph :: "'a \<Rightarrow> 'a StateFunc" and q and l0 :: "'a Lexer"
  assume a: "startState l0 = Some q \<and> graph q l0 = Error msg l"
  have "run_loop graph (Some q) l0 =
          Some (Inr (l\<lparr>tokens := Some (ch\<lparr>buf := buf ch @
                       [\<lparr>Type = -1, Value = msg, Position = position l, Line = line l\<rparr>]\<rparr>)\<rparr>))"
    using a e by (simp add: run_loop.simps [of graph "Some q"] run_loop.simps [of graph None])
  with a assms(2) show "run graph l0 =
              Some (Inr (l\<lparr>tokens := Some (ch\<lparr>buf := buf ch @
                           [\<lparr>Type = -1, Value = msg, Position = position l, Line = line l\<rparr>],
                           closed := True\<rparr>)\<rparr>))"
    by (simp add: run_def chan_close_def)
qed

theorem C8_Error_token_stops_run_witness:
  "Error ''expecting [''
     \<lparr>source = ''abc'', start = 0, line = 1, position = 1, lastWidth = 0,
      startState = Some (), tokens = Some \<lparr>buf = [], cap = 1, closed = False\<rparr>, history = [0x61]\<rparr>
     = Inr (None,
         \<lparr>source = ''abc'', start = 0, line = 1, position = 1, lastWidth = 0,
          startState = Some (),
          tokens = Some \<lparr>buf = [\<lparr>Type = -1, Value = ''expecting ['', Position = 1, Line = 1\<rparr>],
                         cap = 1, closed = False\<rparr>,
          history = [0x61]\<rparr>) \<and>
   run (\<lambda>q. Error ''expecting ['')
     \<lparr>source = ''abc'', start = 0, line = 1, position = 1, lastWidth = 0,
      startState = Some (), tokens = Some \<lparr>buf = [], cap = 1, closed = False\<rparr>, history = [0x61]\<rparr>
     = Some (Inr
         \<lparr>source = ''abc'', start = 0, line = 1, position = 1, lastWidth = 0,
          startState = Some (),
          tokens = Some \<lparr>buf = [\<lparr>Type = -1, Value = ''expecting ['', Position = 1, Line = 1\<rparr>],
                         cap = 1, closed = True\<rparr>,
          history = [0x61]\<rparr>)"
proof -
  let ?l = "\<lparr>source = ''abc'', start = 0, line = 1, position = 1, lastWidth = 0,
             startState = Some (), tokens = Some \<lparr>buf = [], cap = 1, closed = False\<rparr>,
             history = [0x61]\<rparr>"
  let ?ch = "\<lparr>buf = [], cap = 1, closed = False\<rparr>"
  have h1: "tokens ?l = Some ?ch" by simp
  have h2: "\<not> closed ?ch" by simp
  have h3: "length (buf ?ch) < cap ?ch" by simp
  have h4: "startState ?l = Some () \<and> (\<lambda>q. Error ''expecting ['') () ?l = Error ''expecting ['' ?l"
    by simp
  from C8_Error_token_stops_run [OF h1 h2 h3, of "''expecting [''"] h4 show ?thesis
    by simp
qed

text \<open>
  C10. \<open>Error\<close> touches the channel only: when it returns, the lexer is the one before
  the call but for the field \<open>tokens\<close>. So \<open>source\<close>, \<open>start\<close>, \<open>position\<close>, \<open>line\<close> and
  the history are unchanged (the history is not cleared), the pending span reads as before,
  and \<open>Backup\<close> does after \<open>Error\<close> what it would have done before.
\<close>

theorem C10_Error_frame:
  assumes "Error msg l = Inr (st, l1)"
  shows "l1 = l\<lparr>tokens := tokens l1\<rparr> \<and>
         source l1 = source l \<and> start l1 = start l \<and> position l1 = position l \<and>
         line l1 = line l \<and> history l1 = history l \<and>
         Current l1 = Current l \<and>
         Backup l1 = (Backup l)\<lparr>tokens := tokens l1\<rparr> \<and>
         (\<exists>tok. queued l1 = queued l @ [tok] \<and> Type tok = ErrorToken)"
  using assms
  by (auto simp add: Error_def chan_send_def Current_def Backup_def Let_def queued_def
           split: sum.splits option.splits if_splits)

theorem C10_Error_frame_witness:
  "Error ''bad''
     \<lparr>source = ''abc'', start = 0, line = 1, position = 2, lastWidth = 0,
      startState = None :: unit option,
      tokens = Some \<lparr>buf = [], cap = 1, closed = False\<rparr>, history = [0x62, 0x61]\<rparr>
     = Inr (None,
         \<lparr>source = ''abc'', start = 0, line = 1, position = 2, lastWidth = 0,
          startState = None,
          tokens = Some \<lparr>buf = [\<lparr>Type = -1, Value = ''bad'', Position = 2, Line = 1\<rparr>],
                         cap = 1, closed = False\<rparr>,
          history = [0x62, 0x61]\<rparr>) \<and>
   history \<lparr>source = ''abc'', start = 0, line = 1, position = 2, lastWidth = 0,
          startState = None :: unit option,
          tokens = Some \<lparr>buf = [\<lparr>Type = -1, Value = ''bad'', Position = 2, Line = 1\<rparr>],
                         cap = 1, closed = False\<rparr>,
          history = [0x62, 0x61]\<rparr> = [0x62, 0x61] \<and>
   position (Backup \<lparr>source = ''abc'', start = 0, line = 1, position = 2, lastWidth = 0,
          startState = None :: unit option,
          tokens = Some \<lparr>buf = [\<lparr>Type = -1, Value = ''bad'', Position = 2, Line = 1\<rparr>],
                         cap = 1, closed = False\<rparr>,
          history = [0x62, 0x61]\<rparr>) = 1"
proof -
  let ?l = "\<lparr>source = ''abc'', start = 0, line = 1, position = 2, lastWidth = 0,
      startState = None :: unit option,
      tokens = Some \<lparr>buf = [], cap = 1, closed = False\<rparr>, history = [0x62, 0x61]\<rparr>"
  let ?l1 = "\<lparr>source = ''abc'', start = 0, line = 1, position = 2, lastWidth = 0,
          startState = None :: unit option,
          tokens = Some \<lparr>buf = [\<lparr>Type = -1, Value = ''bad'', Position = 2, Line = 1\<rparr>],
                         cap = 1, closed = False\<rparr>,
          history = [0x62, 0x61]\<rparr>"
  have e: "Error ''bad'' ?l = Inr (None, ?l1)"
    by (simp add: Error_def chan_send_def ErrorToken_def)
  have b: "position (Backup ?l) = 1"
    by (simp add: Backup_def pop_def Let_def EOFRune_def utf8_RuneLen_def)
  from C10_Error_frame [OF e] e b show ?thesis
    by simp
qed

section \<open>Every call preserves what the primitive calls preserve\<close>

lemma AcceptRun_loop_preserves:
  assumes nx: "\<And>l r l1. P l \<Longrightarrow> Next l = Inr (r, l1) \<Longrightarrow> P l1"
  shows "P l \<Longrightarrow> AcceptRun_loop valid l n = Inr (m, l2) \<Longrightarrow> P l2"
proof (induction valid l n rule: AcceptRun_loop.induct)
  case (1 valid l n)
  from "1.prems"(2) obtain r l1 where n1: "Next l = Inr (r, l1)"
    by (auto simp add: AcceptRun_loop.simps [of valid l n] split: sum.splits)
  show ?case
  proof (cases "0 \<le> strings_IndexRune valid r")
    case True
    with n1 "1.prems"(2) have "AcceptRun_loop valid l1 (n + 1) = Inr (m, l2)"
      by (simp add: AcceptRun_loop.simps [of valid l n])
    with "1.IH" [OF n1 refl True nx [OF "1.prems"(1) n1]] show ?thesis by simp
  next
    case False
    with n1 "1.prems"(2) have "l2 = l1"
      by (simp add: AcceptRun_loop.simps [of valid l n])
    with nx [OF "1.prems"(1) n1] show ?thesis by simp
  qed
qed

lemma SkipWhitespace_preserves:
  assumes nx: "\<And>l r l1. P l \<Longrightarrow> Next l = Inr (r, l1) \<Longrightarrow> P l1"
    and bk: "\<And>l. P l \<Longrightarrow> P (Backup l)"
    and em: "\<And>l t l1. P l \<Longrightarrow> Emit t l = Inr l1 \<Longrightarrow> P l1"
  shows "P l \<Longrightarrow> SkipWhitespace l = Inr l2 \<Longrightarrow> P l2"
proof (induction l rule: SkipWhitespace.induct)
  case (1 l)
  from "1.prems"(2) obtain r l1 where n1: "Next l = Inr (r, l1)"
    by (auto simp add: SkipWhitespace.simps [of l] split: sum.splits)
  have p1: "P l1" by (rule nx [OF "1.prems"(1) n1])
  consider (nospace) "\<not> unicode_IsSpace r"
    | (eof) "unicode_IsSpace r" "r = EOFRune"
    | (space) "unicode_IsSpace r" "r \<noteq> EOFRune"
    by blast
  then show ?case
  proof cases
    case nospace
    with n1 "1.prems"(2) have "l2 = Backup l1"
      by (simp add: SkipWhitespace.simps [of l])
    with bk [OF p1] show ?thesis by simp
  next
    case eof
    with n1 "1.prems"(2) have "Emit EOFToken l1 = Inr l2"
      by (simp add: SkipWhitespace.simps [of l])
    with em [OF p1] show ?thesis by simp
  next
    case space
    with n1 "1.prems"(2) have "SkipWhitespace l1 = Inr l2"
      by (simp add: SkipWhitespace.simps [of l])
    with "1.IH" [OF n1 refl _ _ p1] space show ?thesis by simp
  qed
qed

lemma apply_op_preserves:
  assumes nx: "\<And>l r l1. P l \<Longrightarrow> Next l = Inr (r, l1) \<Longrightarrow> P l1"
    and bk: "\<And>l. P l \<Longrightarrow> P (Backup l)"
    and em: "\<And>l t l1. P l \<Longrightarrow> Emit t l = Inr l1 \<Longrightarrow> P l1"
    and ig: "\<And>l l1. P l \<Longrightarrow> Ignore l = Inr l1 \<Longrightarrow> P l1"
    and tk: "\<And>l c. P l \<Longrightarrow> P (l\<lparr>tokens := c\<rparr>)"
  shows "P l \<Longrightarrow> apply_op op l = Inr l2 \<Longrightarrow> P l2"
proof (cases op)
  case OpNext
  assume "P l" "apply_op op l = Inr l2"
  with OpNext nx show ?thesis by (cases "Next l") auto
next
  case OpBackup
  assume "P l" "apply_op op l = Inr l2"
  with OpBackup bk show ?thesis by auto
next
  case OpPeek
  assume "P l" "apply_op op l = Inr l2"
  with OpPeek nx bk show ?thesis
    by (cases "Next l") (auto simp add: Peek_def)
next
  case (OpAccept valid)
  assume "P l" "apply_op op l = Inr l2"
  with OpAccept nx bk show ?thesis
    by (cases "Next l") (auto simp add: Accept_def split: if_splits)
next
  case (OpAcceptRun valid)
  assume a: "P l" "apply_op op l = Inr l2"
  with OpAcceptRun obtain m l1 where lp: "AcceptRun_loop valid l 0 = Inr (m, l1)" and l2: "l2 = Backup l1"
    by (cases "AcceptRun_loop valid l 0") (auto simp add: AcceptRun_def)
  have "P l1"
    by (rule AcceptRun_loop_preserves [where P = P, OF _ a(1) lp]) (rule nx)
  with bk l2 show ?thesis by simp
next
  case OpSkipWhitespace
  assume a: "P l" "apply_op op l = Inr l2"
  with OpSkipWhitespace have "SkipWhitespace l = Inr l2" by simp
  show ?thesis
    by (rule SkipWhitespace_preserves [where P = P, OF _ _ _ a(1) \<open>SkipWhitespace l = Inr l2\<close>])
       (rule nx, assumption+, rule bk, assumption, rule em, assumption+)
next
  case (OpEmit t)
  assume "P l" "apply_op op l = Inr l2"
  with OpEmit em show ?thesis by auto
next
  case OpIgnore
  assume "P l" "apply_op op l = Inr l2"
  with OpIgnore ig show ?thesis by auto
next
  case (OpError msg)
  assume "P l" "apply_op op l = Inr l2"
  with OpError tk show ?thesis
    by (auto simp add: Error_def split: sum.splits)
next
  case OpNextToken
  assume "P l" "apply_op op l = Inr l2"
  with OpNextToken tk show ?thesis
    by (auto simp add: NextToken_def split: sum.splits if_splits)
qed

lemma apply_ops_preserves:
  assumes nx: "\<And>l r l1. P l \<Longrightarrow> Next l = Inr (r, l1) \<Longrightarrow> P l1"
    and bk: "\<And>l. P l \<Longrightarrow> P (Backup l)"
    and em: "\<And>l t l1. P l \<Longrightarrow> Emit t l = Inr l1 \<Longrightarrow> P l1"
    and ig: "\<And>l l1. P l \<Longrightarrow> Ignore l = Inr l1 \<Longrightarrow> P l1"
    and tk: "\<And>l c. P l \<Longrightarrow> P (l\<lparr>tokens := c\<rparr>)"
  shows "P l \<Longrightarrow> apply_ops ops l = Inr l2 \<Longrightarrow> P l2"
proof (induction ops arbitrary: l)
  case Nil
  then show ?case by simp
next
  case (Cons op ops)
  from Cons.prems(2) obtain l1 where s1: "apply_op op l = Inr l1" and s2: "apply_ops ops l1 = Inr l2"
    by (auto split: sum.splits)
  have "P l1"
    by (rule apply_op_preserves [where P = P, OF _ _ _ _ _ Cons.prems(1) s1])
       (rule nx, assumption+, rule bk, assumption, rule em, assumption+, rule ig, assumption+,
        rule tk, assumption)
  from Cons.IH [OF this s2] show ?case .
qed

section \<open>The cursor invariant in every reachable state\<close>

lemma decode_rune_has_len:
  assumes "s \<noteq> []"
  shows "1 \<le> utf8_RuneLen (fst (utf8_DecodeRuneInString s))"
proof -
  have "utf8_RuneLen RuneError = 3"
    by (simp add: utf8_RuneLen_def RuneError_def)
  with decode_wellformed_or_error [OF assms] decode_width [OF assms] show ?thesis
    by auto
qed

lemma Next_returns:
  assumes "cursor_inv l"
  shows "\<exists>r l1. Next l = Inr (r, l1) \<and> tokens l1 = tokens l \<and> source l1 = source l \<and> start l1 = start l"
proof (cases "position l = int (length (source l))")
  case True
  from Next_at_end [OF this] show ?thesis by simp
next
  case False
  with assms have "0 \<le> position l" "position l < int (length (source l))"
    by (auto simp add: cursor_inv_def)
  from Next_inside [OF this] show ?thesis by simp
qed

lemma engine_inv_Next:
  assumes "engine_inv l" and "Next l = Inr (r, l1)"
  shows "engine_inv l1"
proof (cases "position l = int (length (source l))")
  case True
  from Next_at_end [OF this] assms show ?thesis
    by (auto simp add: engine_inv_def cursor_inv_def)
next
  case False
  with assms(1) have in_src: "0 \<le> position l" "position l < int (length (source l))"
    by (auto simp add: engine_inv_def cursor_inv_def)
  then have "drop (nat (position l)) (source l) \<noteq> []" by simp
  from decode_rune_has_len [OF this] Next_inside [OF in_src] decode_at_width [OF in_src] assms
  show ?thesis
    by (auto simp add: engine_inv_def cursor_inv_def)
qed

lemma engine_inv_Backup:
  assumes "engine_inv l"
  shows "engine_inv (Backup l)"
proof (cases "history l")
  case Nil
  with assms show ?thesis by (simp add: Backup_empty_history)
next
  case (Cons r rest)
  with assms have "r = EOFRune \<or> 1 \<le> utf8_RuneLen r"
    by (simp add: engine_inv_def)
  with assms Cons show ?thesis
    by (auto simp add: Backup_def pop_def Let_def engine_inv_def cursor_inv_def)
qed

lemma engine_inv_Emit:
  assumes "engine_inv l" and "Emit t l = Inr l1"
  shows "engine_inv l1"
  using assms count_lineSep_nonneg
  by (auto simp add: Emit_def checkLines_def Current_def slice_def clear_def engine_inv_def
        cursor_inv_def add_increasing2 split: sum.splits if_splits)

lemma engine_inv_Ignore:
  assumes "engine_inv l" and "Ignore l = Inr l1"
  shows "engine_inv l1"
  using assms count_lineSep_nonneg
  by (auto simp add: Ignore_def checkLines_def Current_def slice_def clear_def engine_inv_def
        cursor_inv_def add_increasing2 split: sum.splits if_splits)

lemma engine_inv_tokens: "engine_inv l \<Longrightarrow> engine_inv (l\<lparr>tokens := c\<rparr>)"
  by (simp add: engine_inv_def cursor_inv_def)

lemma engine_inv_apply_ops:
  assumes "engine_inv l" and "apply_ops ops l = Inr l2"
  shows "engine_inv l2"
  by (rule apply_ops_preserves [where P = engine_inv, OF _ _ _ _ _ assms])
     (erule engine_inv_Next, assumption, erule engine_inv_Backup, erule engine_inv_Emit,
      assumption, erule engine_inv_Ignore, assumption, erule engine_inv_tokens)

text \<open>No call reads or slices the source out of range.\<close>

lemma Emit_no_slice_panic: "cursor_inv l \<Longrightarrow> Emit t l \<noteq> Inl SliceOutOfRange"
  by (auto simp add: Emit_def checkLines_def Current_def slice_def chan_send_def cursor_inv_def
        split: sum.splits option.splits if_splits)

lemma Ignore_returns: "cursor_inv l \<Longrightarrow> \<exists>l1. Ignore l = Inr l1"
  by (simp add: Ignore_def checkLines_def Current_def slice_def cursor_inv_def)

lemma AcceptRun_loop_returns:
  "engine_inv l \<Longrightarrow> \<exists>m l1. AcceptRun_loop valid l n = Inr (m, l1) \<and> tokens l1 = tokens l"
proof (induction valid l n rule: AcceptRun_loop.induct)
  case (1 valid l n)
  from "1.prems" have "cursor_inv l" by (simp add: engine_inv_def)
  from Next_returns [OF this] obtain r l1 where
    n1: "Next l = Inr (r, l1)" and t1: "tokens l1 = tokens l"
    by blast
  show ?case
  proof (cases "0 \<le> strings_IndexRune valid r")
    case True
    from "1.IH" [OF n1 refl True engine_inv_Next [OF "1.prems" n1]] n1 True t1
    show ?thesis by (simp add: AcceptRun_loop.simps [of valid l n])
  next
    case False
    with n1 t1 show ?thesis by (simp add: AcceptRun_loop.simps [of valid l n])
  qed
qed

text \<open>
  \<open>SkipWhitespace\<close> returns from every reachable state, and with the channel as it was:
  at the end of the source \<open>Next\<close> gives \<open>EOFRune\<close>, which is no space, so the call leaves
  through \<open>Backup\<close> and never comes to \<open>Emit(EOFToken)\<close>.
\<close>

lemma SkipWhitespace_returns:
  "engine_inv l \<Longrightarrow> \<exists>l1. SkipWhitespace l = Inr l1 \<and> tokens l1 = tokens l"
proof (induction l rule: SkipWhitespace.induct)
  case (1 l)
  from "1.prems" have "cursor_inv l" by (simp add: engine_inv_def)
  from Next_returns [OF this] obtain r l1 where
    n1: "Next l = Inr (r, l1)" and t1: "tokens l1 = tokens l"
    by blast
  show ?case
  proof (cases "unicode_IsSpace r")
    case False
    with n1 t1 show ?thesis
      by (simp add: SkipWhitespace.simps [of l] Backup_def Let_def)
  next
    case True
    then have ne: "r \<noteq> EOFRune" using IsSpace_EOFRune by auto
    from "1.IH" [OF n1 refl _ ne engine_inv_Next [OF "1.prems" n1]] True n1 ne t1
    show ?thesis by (simp add: SkipWhitespace.simps [of l])
  qed
qed

lemma apply_op_no_slice_panic:
  assumes "engine_inv l"
  shows "apply_op op l \<noteq> Inl SliceOutOfRange"
proof -
  from assms have ci: "cursor_inv l" by (simp add: engine_inv_def)
  from Next_returns [OF ci] obtain r l1 where n1: "Next l = Inr (r, l1)" by blast
  show ?thesis
  proof (cases op)
    case OpNext
    with n1 show ?thesis by simp
  next
    case OpBackup
    then show ?thesis by simp
  next
    case OpPeek
    with n1 show ?thesis by (simp add: Peek_def)
  next
    case (OpAccept valid)
    with n1 show ?thesis by (simp add: Accept_def)
  next
    case (OpAcceptRun valid)
    with AcceptRun_loop_returns [OF assms, of valid 0] show ?thesis
      by (auto simp add: AcceptRun_def)
  next
    case OpSkipWhitespace
    with SkipWhitespace_returns [OF assms] show ?thesis by auto
  next
    case (OpEmit t)
    with Emit_no_slice_panic [OF ci] show ?thesis by simp
  next
    case OpIgnore
    with Ignore_returns [OF ci] show ?thesis by auto
  next
    case (OpError msg)
    then show ?thesis
      by (auto simp add: Error_def chan_send_def split: sum.splits option.splits if_splits)
  next
    case OpNextToken
    then show ?thesis
      by (auto simp add: NextToken_def chan_recv_def
            split: sum.splits option.splits list.splits if_splits)
  qed
qed

lemma apply_ops_no_slice_panic:
  "engine_inv l \<Longrightarrow> apply_ops ops l \<noteq> Inl SliceOutOfRange"
proof (induction ops arbitrary: l)
  case Nil
  then show ?case by simp
next
  case (Cons op ops)
  show ?case
  proof (cases "apply_op op l")
    case (Inl e)
    with apply_op_no_slice_panic [OF Cons.prems, of op] show ?thesis by simp
  next
    case (Inr l1)
    have "engine_inv l1"
      using engine_inv_apply_ops [OF Cons.prems, of "[op]" l1] Inr by simp
    from Cons.IH [OF this] Inr show ?thesis by simp
  qed
qed

lemma engine_inv_New: "engine_inv ((New src st)\<lparr>tokens := c\<rparr>)"
  by (simp add: engine_inv_def cursor_inv_def New_def newStack_def)

text \<open>
  C6. The lexer that \<open>New\<close> returns satisfies \<open>0 \<le> start \<le> position \<le> len(source)\<close> and
  \<open>line \<ge> 1\<close>, and so does every lexer reached from it by any sequence of calls of
  \<open>Next\<close>, \<open>Backup\<close>, \<open>Peek\<close>, \<open>Accept\<close>, \<open>AcceptRun\<close>, \<open>SkipWhitespace\<close>, \<open>Emit\<close>,
  \<open>Ignore\<close> and \<open>Error\<close> (and of \<open>NextToken\<close> by the consumer), whatever channel
  \<open>StartSync\<close> has put into the field \<open>tokens\<close>; no call of such a sequence panics on a
  slice out of range. Call by call: each of these calls takes a lexer that satisfies the
  invariant and whose history holds only \<open>EOFRune\<close> and runes that have an encoding (as
  every history built by \<open>Next\<close> does) to a lexer of the same kind.
\<close>

theorem C6_cursor_invariant:
  "cursor_inv (New src (st :: 'a option)) \<and>
   (\<forall>op. \<forall>l l1 :: 'a Lexer. engine_inv l \<and> apply_op op l = Inr l1 \<longrightarrow>
      engine_inv l1 \<and> cursor_inv l1) \<and>
   (\<forall>ops c l. apply_ops ops ((New src st)\<lparr>tokens := c\<rparr>) = Inr l \<longrightarrow> cursor_inv l) \<and>
   (\<forall>ops c. apply_ops ops ((New src st)\<lparr>tokens := c\<rparr>) \<noteq> Inl SliceOutOfRange)"
proof (intro conjI allI impI)
  show "cursor_inv (New src st)"
    by (simp add: cursor_inv_def New_def)
next
  fix op and l l1 :: "'a Lexer"
  assume a: "engine_inv l \<and> apply_op op l = Inr l1"
  then have "apply_ops [op] l = Inr l1" by simp
  from engine_inv_apply_ops [OF _ this] a show "engine_inv l1" by blast
  then show "cursor_inv l1" by (simp add: engine_inv_def)
next
  fix ops c and l :: "'a Lexer"
  assume "apply_ops ops ((New src st)\<lparr>tokens := c\<rparr>) = Inr l"
  from engine_inv_apply_ops [OF engine_inv_New this] show "cursor_inv l"
    by (simp add: engine_inv_def)
next
  fix ops c
  show "apply_ops ops ((New src st :: 'a Lexer)\<lparr>tokens := c\<rparr>) \<noteq> Inl SliceOutOfRange"
    by (rule apply_ops_no_slice_panic [OF engine_inv_New])
qed

theorem C6_cursor_invariant_witness:
  "apply_ops
     [OpAcceptRun ''0123456789'', OpEmit 1, OpSkipWhitespace, OpIgnore, OpNext, OpPeek, OpBackup,
      OpAccept ''xyz'', OpError ''bad'', OpNextToken]
     ((New ''12 ab'' (None :: unit option))\<lparr>tokens := Some \<lparr>buf = [], cap = 2, closed = False\<rparr>\<rparr>)
     = Inr \<lparr>source = ''12 ab'', start = 3, line = 1, position = 3, lastWidth = 0,
            startState = None,
            tokens = Some \<lparr>buf = [\<lparr>Type = - 1, Value = ''bad'', Position = 3, Line = 1\<rparr>],
                           cap = 2, closed = False\<rparr>,
            history = []\<rparr> \<and>
   cursor_inv \<lparr>source = ''12 ab'', start = 3, line = 1, position = 3, lastWidth = 0,
            startState = None :: unit option,
            tokens = Some \<lparr>buf = [\<lparr>Type = - 1, Value = ''bad'', Position = 3, Line = 1\<rparr>],
                           cap = 2, closed = False\<rparr>,
            history = []\<rparr>"
proof -
  have e: "apply_ops
     [OpAcceptRun ''0123456789'', OpEmit 1, OpSkipWhitespace, OpIgnore, OpNext, OpPeek, OpBackup,
      OpAccept ''xyz'', OpError ''bad'', OpNextToken]
     ((New ''12 ab'' (None :: unit option))\<lparr>tokens := Some \<lparr>buf = [], cap = 2, closed = False\<rparr>\<rparr>)
     = Inr \<lparr>source = ''12 ab'', start = 3, line = 1, position = 3, lastWidth = 0,
            startState = None,
            tokens = Some \<lparr>buf = [\<lparr>Type = - 1, Value = ''bad'', Position = 3, Line = 1\<rparr>],
                           cap = 2, closed = False\<rparr>,
            history = []\<rparr>"
    by code_simp
  from C6_cursor_invariant [of "''12 ab''" "None :: unit option"] e show ?thesis
    by blast
qed

section \<open>SkipWhitespace at the end of the source\<close>

text \<open>
  C1 (the code does not do what the claim says). On the source of two spaces, and on the
  empty source, \<open>SkipWhitespace\<close> on the lexer \<open>StartSync\<close> has prepared reaches the end of
  the source and returns with an empty channel: no token of type \<open>EOFToken\<close> has been
  sent. \<open>SkipWhitespace_returns\<close> shows the same from every reachable state.
\<close>

theorem C1_SkipWhitespace_sends_no_EOFToken:
  "SkipWhitespace (make_tokens (New ''  '' (None :: unit option)))
     = Inr \<lparr>source = ''  '', start = 0, line = 1, position = 2, lastWidth = 0,
            startState = None,
            tokens = Some \<lparr>buf = [], cap = 1, closed = False\<rparr>,
            history = [0x20, 0x20]\<rparr> \<and>
   SkipWhitespace (make_tokens (New [] (None :: unit option)))
     = Inr \<lparr>source = [], start = 0, line = 1, position = 0, lastWidth = 0,
            startState = None,
            tokens = Some \<lparr>buf = [], cap = 1, closed = False\<rparr>,
            history = []\<rparr>"
  by code_simp

section \<open>Backup after a malformed byte\<close>

text \<open>
  C2 (the code does not do what the claim says). The source is the byte \<open>a\<close> followed by
  the byte \<open>0xFF\<close>, which is no UTF-8. After one \<open>Next\<close> the position is 1 and the
  pending span is \<open>a\<close>. One more \<open>Next\<close> reads \<open>RuneError\<close> with width 1 (position 2), and
  one \<open>Backup\<close> then takes \<open>utf8.RuneLen(RuneError) = 3\<close> from the position and stops at
  \<open>start\<close>: the position is 0 and the pending span is empty, not 1 and \<open>a\<close>. On
  well-formed UTF-8 the round trip holds (\<open>round_trip_wellformed\<close> below).
\<close>

theorem C2_round_trip_fails_on_malformed_byte:
  "Next (New [CHR ''a'', CHR 0xFF] (None :: unit option))
     = Inr (0x61, \<lparr>source = [CHR ''a'', CHR 0xFF], start = 0, line = 1, position = 1, lastWidth = 0,
                   startState = None, tokens = None, history = [0x61]\<rparr>) \<and>
   Current \<lparr>source = [CHR ''a'', CHR 0xFF], start = 0, line = 1, position = 1, lastWidth = 0,
            startState = None :: unit option, tokens = None, history = [0x61]\<rparr> = Inr ''a'' \<and>
   Next \<lparr>source = [CHR ''a'', CHR 0xFF], start = 0, line = 1, position = 1, lastWidth = 0,
         startState = None :: unit option, tokens = None, history = [0x61]\<rparr>
     = Inr (0xFFFD, \<lparr>source = [CHR ''a'', CHR 0xFF], start = 0, line = 1, position = 2, lastWidth = 0,
                     startState = None, tokens = None, history = [0xFFFD, 0x61]\<rparr>) \<and>
   Backup \<lparr>source = [CHR ''a'', CHR 0xFF], start = 0, line = 1, position = 2, lastWidth = 0,
           startState = None :: unit option, tokens = None, history = [0xFFFD, 0x61]\<rparr>
     = \<lparr>source = [CHR ''a'', CHR 0xFF], start = 0, line = 1, position = 0, lastWidth = 0,
        startState = None, tokens = None, history = [0x61]\<rparr> \<and>
   Current \<lparr>source = [CHR ''a'', CHR 0xFF], start = 0, line = 1, position = 0, lastWidth = 0,
            startState = None :: unit option, tokens = None, history = [0x61]\<rparr> = Inr []"
  by code_simp

text \<open>
  C9 (the code does not do what the claim says). The source is \<open>12\<close> followed by the byte
  \<open>0xFF\<close>; the digits are in the set, the rune read at the byte \<open>0xFF\<close> (\<open>RuneError\<close>) is
  not. \<open>AcceptRun\<close> returns 2, yet it leaves the position at 0, not at 2 where the first
  non-member is: its \<open>Backup\<close> goes back three bytes for a rune that was one byte wide.
  On well-formed UTF-8 \<open>AcceptRun\<close> does what the claim says (\<open>AcceptRun_wellformed\<close>
  below).
\<close>

theorem C9_AcceptRun_fails_on_malformed_byte:
  "AcceptRun ''0123456789'' (New [CHR ''1'', CHR ''2'', CHR 0xFF] (None :: unit option))
     = Inr (2, \<lparr>source = [CHR ''1'', CHR ''2'', CHR 0xFF], start = 0, line = 1, position = 0,
                lastWidth = 0, startState = None, tokens = None, history = [0x32, 0x31]\<rparr>)"
  by code_simp

section \<open>Runes of well-formed strings\<close>

lemma runes_Nil: "runes [] = []"
  by (simp add: runes.simps)

lemma wellformed_Nil: "wellformed_utf8 []"
  by (simp add: wellformed_utf8.simps)

lemma runes_eq_Nil: "runes s = [] \<longleftrightarrow> s = []"
  by (simp add: runes.simps [of s])

lemma decode_width_nat:
  assumes "s \<noteq> []"
  shows "0 < nat (snd (utf8_DecodeRuneInString s))"
    and "nat (snd (utf8_DecodeRuneInString s)) \<le> length s"
    and "int (nat (snd (utf8_DecodeRuneInString s))) = snd (utf8_DecodeRuneInString s)"
  using decode_width [OF assms] by linarith+

lemma byte_at_take_append:
  "i < k \<Longrightarrow> k \<le> length s \<Longrightarrow> byte_at (take k s @ t) i = byte_at s i"
  by (simp add: byte_at_def nth_append)

lemma decode_prefix:
  assumes ne: "s \<noteq> []"
    and wf: "utf8_RuneLen (fst (utf8_DecodeRuneInString s)) = snd (utf8_DecodeRuneInString s)"
  shows "utf8_DecodeRuneInString (take (nat (snd (utf8_DecodeRuneInString s))) s @ t)
           = utf8_DecodeRuneInString s"
proof (rule decode_cong [OF ne wf])
  from decode_width_nat [OF ne]
  show "snd (utf8_DecodeRuneInString s)
          \<le> int (length (take (nat (snd (utf8_DecodeRuneInString s))) s @ t))"
    by (simp add: min_absorb2)
next
  from decode_width_nat [OF ne]
  show "byte_at (take (nat (snd (utf8_DecodeRuneInString s))) s @ t) 0 = byte_at s 0"
    by (intro byte_at_take_append) simp_all
next
  assume "2 \<le> snd (utf8_DecodeRuneInString s)"
  with decode_width_nat [OF ne]
  show "byte_at (take (nat (snd (utf8_DecodeRuneInString s))) s @ t) 1 = byte_at s 1"
    by (intro byte_at_take_append) simp_all
next
  assume "3 \<le> snd (utf8_DecodeRuneInString s)"
  with decode_width_nat [OF ne]
  show "byte_at (take (nat (snd (utf8_DecodeRuneInString s))) s @ t) 2 = byte_at s 2"
    by (intro byte_at_take_append) simp_all
next
  assume "4 \<le> snd (utf8_DecodeRuneInString s)"
  with decode_width_nat [OF ne]
  show "byte_at (take (nat (snd (utf8_DecodeRuneInString s))) s @ t) 3 = byte_at s 3"
    by (intro byte_at_take_append) simp_all
qed

lemma decode_append:
  assumes ne: "a \<noteq> []"
    and wf: "utf8_RuneLen (fst (utf8_DecodeRuneInString a)) = snd (utf8_DecodeRuneInString a)"
  shows "utf8_DecodeRuneInString (a @ b) = utf8_DecodeRuneInString a"
proof -
  have "a @ b = take (nat (snd (utf8_DecodeRuneInString a))) a
                  @ (drop (nat (snd (utf8_DecodeRuneInString a))) a @ b)"
    by simp
  with decode_prefix [OF ne wf, of "drop (nat (snd (utf8_DecodeRuneInString a))) a @ b"]
  show ?thesis by (simp only:)
qed

lemma runes_wellformed_append:
  "wellformed_utf8 a \<Longrightarrow>
   runes (a @ b) = runes a @ runes b \<and> wellformed_utf8 (a @ b) = wellformed_utf8 b"
proof (induction "length a" arbitrary: a rule: less_induct)
  case less
  show ?case
  proof (cases "a = []")
    case True
    then show ?thesis by (simp add: runes_Nil)
  next
    case False
    let ?w = "nat (snd (utf8_DecodeRuneInString a))"
    from less.prems False
    have wf: "utf8_RuneLen (fst (utf8_DecodeRuneInString a)) = snd (utf8_DecodeRuneInString a)"
      and rest: "wellformed_utf8 (drop ?w a)"
      by (simp_all add: wellformed_utf8.simps [of a])
    from decode_width [OF False] False have "length (drop ?w a) < length a" by simp
    from less.hyps [OF this rest]
    have ih: "runes (drop ?w a @ b) = runes (drop ?w a) @ runes b"
             "wellformed_utf8 (drop ?w a @ b) = wellformed_utf8 b"
      by simp_all
    have d: "utf8_DecodeRuneInString (a @ b) = utf8_DecodeRuneInString a"
      by (rule decode_append [OF False wf])
    have dr: "drop ?w (a @ b) = drop ?w a @ b"
      using decode_width_nat [OF False] by simp
    from False d dr ih wf show ?thesis
      by (simp add: runes.simps [of "a @ b"] runes.simps [of a] wellformed_utf8.simps [of "a @ b"])
  qed
qed

lemma runes_nonneg: "r \<in> set (runes s) \<Longrightarrow> 0 \<le> r"
proof (induction "length s" arbitrary: s rule: less_induct)
  case less
  show ?case
  proof (cases "s = []")
    case True
    with less.prems show ?thesis by (simp add: runes_Nil)
  next
    case False
    let ?w = "nat (snd (utf8_DecodeRuneInString s))"
    from decode_width [OF False] False have sm: "length (drop ?w s) < length s" by simp
    from less.prems False have "r = fst (utf8_DecodeRuneInString s) \<or> r \<in> set (runes (drop ?w s))"
      by (simp add: runes.simps [of s])
    with less.hyps [OF sm] decode_rune_nonneg [of s] show ?thesis by auto
  qed
qed

text \<open>A well-formed string that has a last rune ends with the encoding of that rune.\<close>

lemma runes_last:
  "wellformed_utf8 s \<Longrightarrow> runes s = rs @ [r] \<Longrightarrow>
   \<exists>s1 e. s = s1 @ e \<and> int (length e) = utf8_RuneLen r \<and> wellformed_utf8 s1 \<and> runes s1 = rs \<and>
          wellformed_utf8 e"
proof (induction "length s" arbitrary: s rs rule: less_induct)
  case less
  from less.prems(2) have ne: "s \<noteq> []" using runes_eq_Nil [of s] by auto
  let ?w = "nat (snd (utf8_DecodeRuneInString s))"
  let ?r0 = "fst (utf8_DecodeRuneInString s)"
  from less.prems(1) ne
  have wf: "utf8_RuneLen ?r0 = snd (utf8_DecodeRuneInString s)"
    and rest: "wellformed_utf8 (drop ?w s)"
    by (simp_all add: wellformed_utf8.simps [of s])
  from decode_width [OF ne] ne have sm: "length (drop ?w s) < length s" by simp
  have rs0: "runes s = ?r0 # runes (drop ?w s)"
    using ne by (simp add: runes.simps [of s])
  have hd_wf: "wellformed_utf8 (take ?w s)" and hd_runes: "runes (take ?w s) = [?r0]"
  proof -
    have tne: "take ?w s \<noteq> []" using decode_width [OF ne] ne by (cases s) auto
    have dt: "utf8_DecodeRuneInString (take ?w s) = utf8_DecodeRuneInString s"
      using decode_prefix [OF ne wf, of "[]"] by simp
    have "drop ?w (take ?w s) = []" by simp
    with tne dt wf show "wellformed_utf8 (take ?w s)" "runes (take ?w s) = [?r0]"
      by (simp_all add: wellformed_utf8.simps [of "take ?w s"] runes.simps [of "take ?w s"]
            runes_Nil wellformed_Nil)
  qed
  show ?case
  proof (cases "drop ?w s = []")
    case True
    with rs0 less.prems(2) have "rs = []" "r = ?r0" by (simp_all add: runes_Nil)
    moreover from True decode_width_nat [OF ne] have "int (length s) = snd (utf8_DecodeRuneInString s)"
      by simp
    ultimately show ?thesis
      using wf less.prems(1) by (intro exI [of _ "[]"] exI [of _ s]) (simp add: wellformed_Nil runes_Nil)
  next
    case False
    then have "runes (drop ?w s) \<noteq> []" by (simp add: runes_eq_Nil)
    with rs0 less.prems(2) obtain rs1 where rs: "rs = ?r0 # rs1" and r1: "runes (drop ?w s) = rs1 @ [r]"
      by (cases rs) auto
    from less.hyps [OF sm rest r1] obtain s2 e where
      se: "drop ?w s = s2 @ e" "int (length e) = utf8_RuneLen r" "wellformed_utf8 s2"
          "runes s2 = rs1" "wellformed_utf8 e"
      by blast
    have "s = (take ?w s @ s2) @ e"
      using se(1) append_take_drop_id [of ?w s] by simp
    moreover have "wellformed_utf8 (take ?w s @ s2)" "runes (take ?w s @ s2) = rs"
      using runes_wellformed_append [OF hd_wf, of s2] hd_runes se rs by simp_all
    ultimately show ?thesis using se by blast
  qed
qed

section \<open>The history and the runes of the pending span\<close>

lemma first_rune_piece:
  assumes ne: "s \<noteq> []"
    and wf: "utf8_RuneLen (fst (utf8_DecodeRuneInString s)) = snd (utf8_DecodeRuneInString s)"
  shows "wellformed_utf8 (take (nat (snd (utf8_DecodeRuneInString s))) s)"
    and "runes (take (nat (snd (utf8_DecodeRuneInString s))) s) = [fst (utf8_DecodeRuneInString s)]"
proof -
  let ?w = "nat (snd (utf8_DecodeRuneInString s))"
  have tne: "take ?w s \<noteq> []" using decode_width_nat [OF ne] ne by (cases s) auto
  have dt: "utf8_DecodeRuneInString (take ?w s) = utf8_DecodeRuneInString s"
    using decode_prefix [OF ne wf, of "[]"] by simp
  have "drop ?w (take ?w s) = []" by simp
  with tne dt wf show "wellformed_utf8 (take ?w s)"
    and "runes (take ?w s) = [fst (utf8_DecodeRuneInString s)]"
    by (simp_all add: wellformed_utf8.simps [of "take ?w s"] runes.simps [of "take ?w s"]
          runes_Nil wellformed_Nil)
qed

lemma pending_split:
  assumes "a \<le> b" and "b \<le> length src"
  shows "drop a src = take (b - a) (drop a src) @ drop b src"
proof -
  have "drop (b - a) (drop a src) = drop b src" using assms by simp
  with append_take_drop_id [of "b - a" "drop a src"] show ?thesis by simp
qed

lemma hist_inv_Next:
  assumes inv: "hist_inv l" and nx: "Next l = Inr (r, l1)"
  shows "hist_inv l1"
proof (cases "position l = int (length (source l))")
  case True
  from inv obtain k where
    k: "history l = replicate k EOFRune @ rev (runes (pending l))"
    by (auto simp add: hist_inv_def)
  from Next_at_end [OF True] nx have l1: "l1 = l\<lparr>history := EOFRune # history l\<rparr>"
    by simp
  then have same: "pending l1 = pending l" "position l1 = position l" "source l1 = source l"
    "cursor_inv l1 = cursor_inv l"
    by (simp_all add: pending_def cursor_inv_def)
  have "history l1 = replicate (Suc k) EOFRune @ rev (runes (pending l1)) \<and>
        (0 < Suc k \<longrightarrow> position l1 = int (length (source l1)))"
    using l1 k True by (simp add: pending_def)
  then have "\<exists>k. history l1 = replicate k EOFRune @ rev (runes (pending l1)) \<and>
        (0 < k \<longrightarrow> position l1 = int (length (source l1)))"
    by blast
  with inv same show ?thesis
    by (simp add: hist_inv_def)
next
  case False
  from inv have ci: "cursor_inv l" by (simp add: hist_inv_def)
  with False have in_src: "0 \<le> position l" "position l < int (length (source l))"
    by (auto simp add: cursor_inv_def)
  from ci obtain a b where ab: "start l = int a" "position l = int b" "a \<le> b" "b \<le> length (source l)"
    by (auto simp add: cursor_inv_def) (metis nat_le_iff nat_0_le order_trans zle_int)
  let ?s = "drop b (source l)"
  define w where "w = nat (snd (utf8_DecodeRuneInString ?s))"
  have sne: "?s \<noteq> []" using in_src ab by simp
  from inv ab have wfs: "wellformed_utf8 ?s" by (simp add: hist_inv_def)
  with sne have wf: "utf8_RuneLen (fst (utf8_DecodeRuneInString ?s)) = snd (utf8_DecodeRuneInString ?s)"
    and rest: "wellformed_utf8 (drop w ?s)"
    by (simp_all add: wellformed_utf8.simps [of ?s] w_def)
  from inv False obtain
    h: "history l = rev (runes (pending l))" and wfp: "wellformed_utf8 (pending l)"
    by (auto simp add: hist_inv_def)
  have wn: "snd (utf8_DecodeRuneInString ?s) = int w" "0 < w" "w \<le> length ?s"
    using decode_width_nat [OF sne] by (simp_all add: w_def)
  from Next_inside [OF in_src] nx ab wn(1)
  have l1: "l1 = l\<lparr>position := int (b + w),
                    history := fst (utf8_DecodeRuneInString ?s) # history l\<rparr>"
    by simp
  have src1: "source l1 = source l" "start l1 = int a" "line l1 = line l"
    "position l1 = int (b + w)"
    "history l1 = fst (utf8_DecodeRuneInString ?s) # history l"
    using l1 ab by simp_all
  have bw: "b + w \<le> length (source l)" using wn(3) ab by simp
  have nd: "\<And>x y. nat (int x - int y) = x - y" by simp
  have pend0: "pending l = take (b - a) (drop a (source l))"
    by (simp only: pending_def ab nd nat_int)
  have pend1: "pending l1 = pending l @ take w ?s"
  proof -
    have "pending l1 = take (b + w - a) (drop a (source l))"
      by (simp only: pending_def src1 nd nat_int)
    also have "b + w - a = (b - a) + w" using ab by simp
    also have "take ((b - a) + w) (drop a (source l))
                 = take (b - a) (drop a (source l)) @ take w (drop (b - a) (drop a (source l)))"
      by (rule take_add)
    also have "drop (b - a) (drop a (source l)) = ?s" using ab by simp
    finally show ?thesis using pend0 by simp
  qed
  from first_rune_piece [OF sne wf]
  have piece: "wellformed_utf8 (take w ?s)" "runes (take w ?s) = [fst (utf8_DecodeRuneInString ?s)]"
    by (simp_all add: w_def)
  from runes_wellformed_append [OF wfp, of "take w ?s"] piece pend1
  have rp: "runes (pending l1) = runes (pending l) @ [fst (utf8_DecodeRuneInString ?s)]"
    and wp1: "wellformed_utf8 (pending l1)"
    by simp_all
  have "drop w ?s = drop (b + w) (source l)" by (simp add: add.commute)
  with rest have "wellformed_utf8 (drop (nat (position l1)) (source l1))"
    by (simp only: src1 nat_int)
  moreover have "cursor_inv l1"
    using ci ab bw by (simp only: cursor_inv_def src1) simp
  moreover have "history l1 = replicate 0 EOFRune @ rev (runes (pending l1))"
    using src1 h rp by simp
  ultimately show ?thesis
    unfolding hist_inv_def using wp1 by blast
qed

lemma hist_inv_Backup:
  assumes inv: "hist_inv l"
  shows "hist_inv (Backup l)"
proof -
  from inv have ci: "cursor_inv l" by (simp add: hist_inv_def)
  from inv obtain k where
    k: "history l = replicate k EOFRune @ rev (runes (pending l))"
       "0 < k \<longrightarrow> position l = int (length (source l))"
    by (auto simp add: hist_inv_def)
  show ?thesis
  proof (cases k)
    case (Suc k1)
    with k have h: "history l = EOFRune # (replicate k1 EOFRune @ rev (runes (pending l)))"
      and pe: "position l = int (length (source l))"
      by simp_all
    then have bl: "Backup l = l\<lparr>history := replicate k1 EOFRune @ rev (runes (pending l))\<rparr>"
      by (simp add: Backup_def pop_def Let_def)
    have "history (Backup l) = replicate k1 EOFRune @ rev (runes (pending (Backup l))) \<and>
          (0 < k1 \<longrightarrow> position (Backup l) = int (length (source (Backup l))))"
      using bl pe by (simp add: pending_def)
    then have "\<exists>k. history (Backup l) = replicate k EOFRune @ rev (runes (pending (Backup l))) \<and>
          (0 < k \<longrightarrow> position (Backup l) = int (length (source (Backup l))))"
      by blast
    moreover have "pending (Backup l) = pending l" "position (Backup l) = position l"
      "source (Backup l) = source l" "cursor_inv (Backup l) = cursor_inv l"
      using bl by (simp_all add: pending_def cursor_inv_def)
    ultimately show ?thesis using inv by (simp add: hist_inv_def)
  next
    case 0
    with k have h: "history l = rev (runes (pending l))" by simp
    show ?thesis
    proof (cases "history l")
      case Nil
      with inv show ?thesis by (simp add: Backup_empty_history)
    next
      case (Cons r rest)
      with h have rl: "runes (pending l) = rev rest @ [r]"
        by (metis rev.simps(2) rev_rev_ident)
      then have "r \<in> set (runes (pending l))" by simp
      from runes_nonneg [OF this] have rpos: "r > EOFRune" by (simp add: EOFRune_def)
      from inv have wfp: "wellformed_utf8 (pending l)" and wfd: "wellformed_utf8 (drop (nat (position l)) (source l))"
        by (simp_all add: hist_inv_def)
      from runes_last [OF wfp rl] obtain s1 e where
        se: "pending l = s1 @ e" "int (length e) = utf8_RuneLen r" "wellformed_utf8 s1"
            "runes s1 = rev rest" "wellformed_utf8 e"
        by blast
      from ci obtain a b where ab: "start l = int a" "position l = int b" "a \<le> b" "b \<le> length (source l)"
        by (auto simp add: cursor_inv_def) (metis nat_le_iff nat_0_le order_trans zle_int)
      have nd: "\<And>x y. nat (int x - int y) = x - y" by simp
      have pend0: "pending l = take (b - a) (drop a (source l))"
        by (simp only: pending_def ab nd nat_int)
      have lp: "length (pending l) = b - a" using ab pend0 by simp
      with se(1) have le: "length s1 + length e = b - a" by simp
      define c where "c = a + length s1"
      have c: "a \<le> c" "c \<le> b" "b - c = length e" "c - a = length s1"
        using le ab by (simp_all add: c_def)
      have pos: "position l - utf8_RuneLen r = int c"
        using se(2) c ab by simp
      from Cons rpos pos ab c
      have bl: "Backup l = l\<lparr>history := rest, position := int c\<rparr>"
        by (simp add: Backup_def pop_def Let_def)
      then have f: "source (Backup l) = source l" "start (Backup l) = int a"
        "position (Backup l) = int c" "history (Backup l) = rest" "line (Backup l) = line l"
        using ab by simp_all
      have pend1: "pending (Backup l) = s1"
      proof -
        have "pending (Backup l) = take (c - a) (drop a (source l))"
          by (simp only: pending_def f nd nat_int)
        also have "\<dots> = take (length s1) (take (b - a) (drop a (source l)))"
          using c by simp
        also have "\<dots> = take (length s1) (s1 @ e)"
          using pend0 se(1) by (simp only:)
        also have "\<dots> = s1" by simp
        finally show ?thesis .
      qed
      have "drop c (source l) = e @ drop b (source l)"
      proof -
        have "drop a (source l) = (s1 @ e) @ drop b (source l)"
          using pending_split [OF ab(3) ab(4)] pend0 se(1) by simp
        then have "drop (length s1) (drop a (source l)) = e @ drop b (source l)"
          by simp
        then show ?thesis by (simp add: c_def add.commute)
      qed
      with runes_wellformed_append [OF se(5), of "drop b (source l)"] wfd ab
      have wfd1: "wellformed_utf8 (drop (nat (position (Backup l))) (source (Backup l)))"
        by (simp only: f nat_int)
      have ci1: "cursor_inv (Backup l)"
        using ci ab c by (simp only: cursor_inv_def f) simp
      have "history (Backup l) = replicate 0 EOFRune @ rev (runes (pending (Backup l)))"
        using f pend1 se(4) by simp
      with ci1 wfd1 pend1 se(3) show ?thesis
        unfolding hist_inv_def by (metis less_nat_zero_code)
    qed
  qed
qed

lemma hist_inv_Emit:
  assumes "hist_inv l" and "Emit t l = Inr l1"
  shows "hist_inv l1"
proof -
  from assms(2) obtain c val where
    l1: "l1 = l\<lparr>tokens := c, line := line l + count_lineSep val, start := position l, history := []\<rparr>"
    by (auto simp add: Emit_def checkLines_def Current_def clear_def split: sum.splits)
  have "history l1 = replicate 0 EOFRune @ rev (runes (pending l1))"
    using l1 by (simp add: pending_def runes_Nil)
  moreover have "cursor_inv l1"
    using assms(1) l1 count_lineSep_nonneg [of val]
    by (simp add: hist_inv_def cursor_inv_def)
  moreover have "pending l1 = []" using l1 by (simp add: pending_def)
  moreover have "wellformed_utf8 (drop (nat (position l1)) (source l1))"
    using assms(1) l1 by (simp add: hist_inv_def)
  ultimately show ?thesis
    unfolding hist_inv_def using wellformed_Nil by (metis less_nat_zero_code)
qed

lemma hist_inv_Ignore:
  assumes "hist_inv l" and "Ignore l = Inr l1"
  shows "hist_inv l1"
proof -
  from assms(2) obtain val where
    l1: "l1 = l\<lparr>history := [], line := line l + count_lineSep val, start := position l\<rparr>"
    by (auto simp add: Ignore_def checkLines_def Current_def clear_def split: sum.splits)
  have "history l1 = replicate 0 EOFRune @ rev (runes (pending l1))"
    using l1 by (simp add: pending_def runes_Nil)
  moreover have "cursor_inv l1"
    using assms(1) l1 count_lineSep_nonneg [of val]
    by (simp add: hist_inv_def cursor_inv_def)
  moreover have "pending l1 = []" using l1 by (simp add: pending_def)
  moreover have "wellformed_utf8 (drop (nat (position l1)) (source l1))"
    using assms(1) l1 by (simp add: hist_inv_def)
  ultimately show ?thesis
    unfolding hist_inv_def using wellformed_Nil by (metis less_nat_zero_code)
qed

lemma hist_inv_tokens: "hist_inv l \<Longrightarrow> hist_inv (l\<lparr>tokens := c\<rparr>)"
  by (simp add: hist_inv_def cursor_inv_def pending_def)

lemma hist_inv_New:
  assumes "wellformed_utf8 src"
  shows "hist_inv ((New src st)\<lparr>tokens := c\<rparr>)"
proof -
  have "history ((New src st)\<lparr>tokens := c\<rparr>)
          = replicate 0 EOFRune @ rev (runes (pending ((New src st)\<lparr>tokens := c\<rparr>)))"
    by (simp add: New_def newStack_def pending_def runes_Nil)
  moreover have "pending ((New src st)\<lparr>tokens := c\<rparr>) = []"
    by (simp add: New_def pending_def)
  moreover have "cursor_inv ((New src st)\<lparr>tokens := c\<rparr>)"
    by (simp add: New_def cursor_inv_def)
  moreover have "wellformed_utf8 (drop (nat (position ((New src st)\<lparr>tokens := c\<rparr>)))
                   (source ((New src st)\<lparr>tokens := c\<rparr>)))"
    using assms by (simp add: New_def)
  ultimately show ?thesis
    unfolding hist_inv_def using wellformed_Nil by (metis less_nat_zero_code)
qed

lemma hist_inv_apply_ops:
  assumes "hist_inv l" and "apply_ops ops l = Inr l2"
  shows "hist_inv l2"
  by (rule apply_ops_preserves [where P = hist_inv, OF _ _ _ _ _ assms])
     (erule hist_inv_Next, assumption, erule hist_inv_Backup, erule hist_inv_Emit,
      assumption, erule hist_inv_Ignore, assumption, erule hist_inv_tokens)

lemma hist_inv_history:
  assumes "hist_inv l"
  shows "Current l = Inr (pending l) \<and>
         filter (\<lambda>r. r \<noteq> EOFRune) (history l) = rev (runes (pending l))"
proof -
  from assms obtain k where k: "history l = replicate k EOFRune @ rev (runes (pending l))"
    by (auto simp add: hist_inv_def)
  have "\<forall>r \<in> set (runes (pending l)). r \<noteq> EOFRune"
    using runes_nonneg by (fastforce simp add: EOFRune_def)
  then have "filter (\<lambda>r. r \<noteq> EOFRune) (rev (runes (pending l))) = rev (runes (pending l))"
    by (simp add: filter_id_conv)
  with k have "filter (\<lambda>r. r \<noteq> EOFRune) (history l) = rev (runes (pending l))"
    by simp
  moreover from assms have "Current l = Inr (pending l)"
    using Current_inv [of l] by (simp add: hist_inv_def pending_def)
  ultimately show ?thesis by simp
qed

text \<open>
  C3 (corrected). At the end of the source \<open>Next\<close> returns \<open>EOFRune\<close> and leaves
  \<open>position\<close> where it is, and it pushes \<open>EOFRune\<close> onto the history. On a source of
  well-formed UTF-8, in every state reached from \<open>New\<close> by calls of the engine, the entries
  of the history other than \<open>EOFRune\<close> are the runes of the pending span, the last rune
  first; so they are as many as the span has runes, and not more.
\<close>

theorem C3_Next_at_end_and_history:
  "(\<forall>l :: 'q Lexer. position l = int (length (source l)) \<longrightarrow>
      Next l = Inr (EOFRune, l\<lparr>history := EOFRune # history l\<rparr>)) \<and>
   (wellformed_utf8 src \<longrightarrow>
      (\<forall>ops c. \<forall>l :: 'q Lexer. apply_ops ops ((New src st)\<lparr>tokens := c\<rparr>) = Inr l \<longrightarrow>
         (\<exists>val. Current l = Inr val \<and>
                filter (\<lambda>r. r \<noteq> EOFRune) (history l) = rev (runes val) \<and>
                length (filter (\<lambda>r. r \<noteq> EOFRune) (history l)) \<le> length (runes val))))"
proof (intro conjI allI impI)
  fix l :: "'q Lexer"
  assume "position l = int (length (source l))"
  then show "Next l = Inr (EOFRune, l\<lparr>history := EOFRune # history l\<rparr>)"
    by (rule Next_at_end)
next
  fix ops c and l :: "'q Lexer"
  assume wf: "wellformed_utf8 src" and ap: "apply_ops ops ((New src st)\<lparr>tokens := c\<rparr>) = Inr l"
  have "hist_inv l"
    by (rule hist_inv_apply_ops [OF hist_inv_New [OF wf] ap])
  from hist_inv_history [OF this]
  show "\<exists>val. Current l = Inr val \<and>
                filter (\<lambda>r. r \<noteq> EOFRune) (history l) = rev (runes val) \<and>
                length (filter (\<lambda>r. r \<noteq> EOFRune) (history l)) \<le> length (runes val)"
    by simp
qed

theorem C3_Next_at_end_and_history_witness:
  "Next \<lparr>source = ''ab'', start = 0, line = 1, position = 2, lastWidth = 0,
         startState = None :: unit option, tokens = None, history = [0x62, 0x61]\<rparr>
     = Inr (- 1, \<lparr>source = ''ab'', start = 0, line = 1, position = 2, lastWidth = 0,
                  startState = None, tokens = None, history = [- 1, 0x62, 0x61]\<rparr>) \<and>
   apply_ops [OpNext, OpNext, OpNext, OpNext] (New [CHR ''h'', CHR 0xC3, CHR 0xA9] (None :: unit option))
     = Inr \<lparr>source = [CHR ''h'', CHR 0xC3, CHR 0xA9], start = 0, line = 1, position = 3,
            lastWidth = 0, startState = None, tokens = None, history = [- 1, - 1, 0xE9, 0x68]\<rparr> \<and>
   (\<exists>val. Current \<lparr>source = [CHR ''h'', CHR 0xC3, CHR 0xA9], start = 0, line = 1, position = 3,
                    lastWidth = 0, startState = None :: unit option, tokens = None,
                    history = [- 1, - 1, 0xE9, 0x68]\<rparr> = Inr val \<and>
          filter (\<lambda>r. r \<noteq> EOFRune) [- 1, - 1, 0xE9, 0x68] = rev (runes val))"
proof -
  let ?l = "\<lparr>source = ''ab'', start = 0, line = 1, position = 2, lastWidth = 0,
         startState = None :: unit option, tokens = None, history = [0x62, 0x61]\<rparr>"
  let ?src = "[CHR ''h'', CHR 0xC3, CHR 0xA9]"
  let ?l2 = "\<lparr>source = ?src, start = 0, line = 1, position = 3,
            lastWidth = 0, startState = None :: unit option, tokens = None,
            history = [- 1, - 1, 0xE9, 0x68]\<rparr>"
  have h1: "position ?l = int (length (source ?l))" by simp
  have h2: "wellformed_utf8 ?src" by code_simp
  have h3: "apply_ops [OpNext, OpNext, OpNext, OpNext] ((New ?src (None :: unit option))\<lparr>tokens := None\<rparr>) = Inr ?l2"
    by code_simp
  have h4: "(New ?src (None :: unit option))\<lparr>tokens := None\<rparr> = New ?src None"
    by (simp add: New_def)
  from C3_Next_at_end_and_history [where src = ?src and st = "None :: unit option"] h1 h2 h3
  have "Next ?l = Inr (EOFRune, ?l\<lparr>history := EOFRune # history ?l\<rparr>)"
    and "\<exists>val. Current ?l2 = Inr val \<and>
           filter (\<lambda>r. r \<noteq> EOFRune) (history ?l2) = rev (runes val)"
    by blast+
  with h3 h4 show ?thesis
    by (simp add: EOFRune_def)
qed

text \<open>
  The claim C3 as it is written fails on the empty source: \<open>Next\<close> at the end of the
  source pushes an entry, and the history (one entry) is longer than the pending span
  has runes (none).
\<close>

theorem C3_counterexample:
  "Next (New [] (None :: unit option))
     = Inr (- 1, \<lparr>source = [], start = 0, line = 1, position = 0, lastWidth = 0,
                  startState = None, tokens = None, history = [- 1]\<rparr>) \<and>
   history (New [] (None :: unit option)) = [] \<and>
   Current \<lparr>source = [], start = 0, line = 1, position = 0, lastWidth = 0,
            startState = None :: unit option, tokens = None, history = [- 1]\<rparr> = Inr [] \<and>
   length (runes []) < length (history \<lparr>source = [], start = 0, line = 1, position = 0,
            lastWidth = 0, startState = None :: unit option, tokens = None, history = [- 1]\<rparr>)"
  by code_simp

section \<open>Next and Backup on well-formed input\<close>

text \<open>
  On well-formed input \<open>Backup\<close> undoes \<open>Next\<close>: the rune that was read has the width
  \<open>utf8.RuneLen\<close> gives for it.
\<close>

lemma Backup_undoes_Next:
  assumes ci: "cursor_inv l"
    and wf: "wellformed_utf8 (drop (nat (position l)) (source l))"
    and nx: "Next l = Inr (r, l1)"
  shows "Backup l1 = l"
    and "cursor_inv l1"
    and "wellformed_utf8 (drop (nat (position l1)) (source l1))"
    and "source l1 = source l"
proof -
  have "Backup l1 = l \<and> cursor_inv l1 \<and>
        wellformed_utf8 (drop (nat (position l1)) (source l1)) \<and> source l1 = source l"
  proof (cases "position l = int (length (source l))")
    case True
    from Next_at_end [OF True] nx have l1: "l1 = l\<lparr>history := EOFRune # history l\<rparr>" by simp
    then have "Backup l1 = l" by (simp add: Backup_def pop_def Let_def)
    with l1 ci wf show ?thesis by (simp add: cursor_inv_def)
  next
    case False
    with ci have in_src: "0 \<le> position l" "position l < int (length (source l))"
      by (auto simp add: cursor_inv_def)
    let ?s = "drop (nat (position l)) (source l)"
    have sne: "?s \<noteq> []" using in_src by simp
    from wf sne have w: "utf8_RuneLen (fst (utf8_DecodeRuneInString ?s)) = snd (utf8_DecodeRuneInString ?s)"
      and rest: "wellformed_utf8 (drop (nat (snd (utf8_DecodeRuneInString ?s))) ?s)"
      by (simp_all add: wellformed_utf8.simps [of ?s])
    from Next_inside [OF in_src] nx
    have l1: "l1 = l\<lparr>position := position l + snd (utf8_DecodeRuneInString ?s),
                      history := fst (utf8_DecodeRuneInString ?s) # history l\<rparr>"
      by simp
    have r0: "EOFRune < fst (utf8_DecodeRuneInString ?s)"
      using decode_rune_nonneg [of ?s] by (simp add: EOFRune_def)
    from ci have "start l \<le> position l" by (simp add: cursor_inv_def)
    with l1 r0 w have b: "Backup l1 = l"
      by (simp add: Backup_def pop_def Let_def)
    from decode_at_width [OF in_src] ci l1 have c1: "cursor_inv l1"
      by (simp add: cursor_inv_def)
    have "nat (position l + snd (utf8_DecodeRuneInString ?s))
            = nat (snd (utf8_DecodeRuneInString ?s)) + nat (position l)"
      using in_src decode_at_width [OF in_src] by linarith
    with rest l1 have "wellformed_utf8 (drop (nat (position l1)) (source l1))"
      by simp
    with b c1 l1 show ?thesis by simp
  qed
  then show "Backup l1 = l" and "cursor_inv l1"
    and "wellformed_utf8 (drop (nat (position l1)) (source l1))" and "source l1 = source l"
    by blast+
qed

text \<open>
  The round trip of C2 where it holds: on well-formed input, \<open>n\<close> calls of \<open>Next\<close>
  followed by \<open>n\<close> calls of \<open>Backup\<close> give back the lexer as it was.
\<close>

lemma round_trip_wellformed:
  assumes "cursor_inv l"
    and "wellformed_utf8 (drop (nat (position l)) (source l))"
  shows "\<exists>l1. apply_ops (replicate n OpNext) l = Inr l1 \<and> (Backup ^^ n) l1 = l"
  using assms
proof (induction n arbitrary: l)
  case 0
  then show ?case by simp
next
  case (Suc n)
  from Next_returns [OF Suc.prems(1)] obtain r l1 where nx: "Next l = Inr (r, l1)" by blast
  note u = Backup_undoes_Next [OF Suc.prems nx]
  from Suc.IH [OF u(2) u(3)] obtain l2 where
    l2: "apply_ops (replicate n OpNext) l1 = Inr l2" "(Backup ^^ n) l2 = l1"
    by blast
  with nx u(1) show ?case by simp
qed

text \<open>
  \<open>AcceptRun\<close> where C9 holds: on well-formed input it consumes the longest prefix of
  runes that are in the set, returns their number, and leaves \<open>position\<close> behind the
  prefix, where the first non-member (or the end of the source) is.
\<close>

lemma AcceptRun_loop_wellformed:
  "cursor_inv l \<Longrightarrow> wellformed_utf8 (drop (nat (position l)) (source l)) \<Longrightarrow>
   \<exists>lk r llast.
     AcceptRun_loop valid l n
       = Inr (n + int (length (takeWhile (\<lambda>r. 0 \<le> strings_IndexRune valid r)
                                 (runes (drop (nat (position l)) (source l))))), llast) \<and>
     Next lk = Inr (r, llast) \<and>
     lk = l\<lparr>position := position l + sum_list (map utf8_RuneLen
                  (takeWhile (\<lambda>r. 0 \<le> strings_IndexRune valid r)
                     (runes (drop (nat (position l)) (source l))))),
            history := rev (takeWhile (\<lambda>r. 0 \<le> strings_IndexRune valid r)
                              (runes (drop (nat (position l)) (source l)))) @ history l\<rparr> \<and>
     cursor_inv lk \<and> wellformed_utf8 (drop (nat (position lk)) (source lk))"
proof (induction valid l n rule: AcceptRun_loop.induct)
  case (1 valid l n)
  let ?mem = "\<lambda>r. 0 \<le> strings_IndexRune valid r"
  let ?s = "drop (nat (position l)) (source l)"
  from Next_returns [OF "1.prems"(1)] obtain r l1 where nx: "Next l = Inr (r, l1)" by blast
  note u = Backup_undoes_Next [OF "1.prems" nx]
  have first: "?s \<noteq> [] \<Longrightarrow>
                 l1 = l\<lparr>position := position l + utf8_RuneLen r, history := r # history l\<rparr> \<and>
                 runes ?s = r # runes (drop (nat (position l1)) (source l1))"
  proof -
    assume sne: "?s \<noteq> []"
    with "1.prems"(1) have in_src: "0 \<le> position l" "position l < int (length (source l))"
      by (auto simp add: cursor_inv_def)
    from "1.prems"(2) sne
    have w: "utf8_RuneLen (fst (utf8_DecodeRuneInString ?s)) = snd (utf8_DecodeRuneInString ?s)"
      by (simp add: wellformed_utf8.simps [of ?s])
    have "nat (position l + snd (utf8_DecodeRuneInString ?s))
            = nat (snd (utf8_DecodeRuneInString ?s)) + nat (position l)"
      using in_src decode_at_width [OF in_src] by linarith
    with Next_inside [OF in_src] nx w sne show ?thesis
      by (simp add: runes.simps [of ?s])
  qed
  show ?case
  proof (cases "?mem r")
    case True
    then have "r \<noteq> EOFRune" using IndexRune_EOFRune [of valid] by auto
    with nx have "position l \<noteq> int (length (source l))"
      using Next_at_end [of l] by auto
    with "1.prems"(1) have "nat (position l) < length (source l)"
      unfolding cursor_inv_def by linarith
    then have sne: "?s \<noteq> []" by simp
    note f = first [OF sne]
    from "1.IH" [OF nx refl True u(2) u(3)] obtain lk r2 llast where
      ih: "AcceptRun_loop valid l1 (n + 1)
             = Inr (n + 1 + int (length (takeWhile ?mem (runes (drop (nat (position l1)) (source l1))))), llast)"
          "Next lk = Inr (r2, llast)"
          "lk = l1\<lparr>position := position l1 + sum_list (map utf8_RuneLen
                       (takeWhile ?mem (runes (drop (nat (position l1)) (source l1))))),
                    history := rev (takeWhile ?mem (runes (drop (nat (position l1)) (source l1))))
                                 @ history l1\<rparr>"
          "cursor_inv lk" "wellformed_utf8 (drop (nat (position lk)) (source lk))"
      by blast
    have tw: "takeWhile ?mem (runes ?s)
                = r # takeWhile ?mem (runes (drop (nat (position l1)) (source l1)))"
      using f True by simp
    define pre1 where "pre1 = takeWhile ?mem (runes (drop (nat (position l1)) (source l1)))"
    have l1: "l1 = l\<lparr>position := position l + utf8_RuneLen r, history := r # history l\<rparr>"
      using f by simp
    have "lk = l1\<lparr>position := position l1 + sum_list (map utf8_RuneLen pre1),
                    history := rev pre1 @ history l1\<rparr>"
      using ih(3) by (simp only: pre1_def)
    also have "\<dots> = l\<lparr>position := position l + utf8_RuneLen r + sum_list (map utf8_RuneLen pre1),
                       history := rev pre1 @ r # history l\<rparr>"
      by (subst l1, subst l1, subst l1) simp
    also have "\<dots> = l\<lparr>position := position l + sum_list (map utf8_RuneLen (r # pre1)),
                       history := rev (r # pre1) @ history l\<rparr>"
      by (simp add: add.assoc)
    finally have lk: "lk = l\<lparr>position := position l + sum_list (map utf8_RuneLen (takeWhile ?mem (runes ?s))),
                     history := rev (takeWhile ?mem (runes ?s)) @ history l\<rparr>"
      by (simp only: tw pre1_def)
    have "AcceptRun_loop valid l n
            = Inr (n + int (length (takeWhile ?mem (runes ?s))), llast)"
      using nx True ih(1) tw by (simp add: AcceptRun_loop.simps [of valid l n])
    with ih(2) lk ih(4) ih(5) show ?thesis by blast
  next
    case False
    have tw: "takeWhile ?mem (runes ?s) = []"
    proof (cases "?s = []")
      case True
      then show ?thesis by (simp add: runes_Nil)
    next
      case sne: False
      from first [OF sne] False show ?thesis by simp
    qed
    have "AcceptRun_loop valid l n = Inr (n + int (length (takeWhile ?mem (runes ?s))), l1)"
      using nx False tw by (simp add: AcceptRun_loop.simps [of valid l n])
    moreover have "l = l\<lparr>position := position l + sum_list (map utf8_RuneLen (takeWhile ?mem (runes ?s))),
                           history := rev (takeWhile ?mem (runes ?s)) @ history l\<rparr>"
      using tw by simp
    ultimately show ?thesis using nx "1.prems" by metis
  qed
qed

lemma AcceptRun_wellformed:
  assumes "cursor_inv l" and "wellformed_utf8 (drop (nat (position l)) (source l))"
  shows "AcceptRun valid l
           = Inr (int (length (takeWhile (\<lambda>r. 0 \<le> strings_IndexRune valid r)
                                 (runes (drop (nat (position l)) (source l))))),
                  l\<lparr>position := position l + sum_list (map utf8_RuneLen
                         (takeWhile (\<lambda>r. 0 \<le> strings_IndexRune valid r)
                            (runes (drop (nat (position l)) (source l))))),
                    history := rev (takeWhile (\<lambda>r. 0 \<le> strings_IndexRune valid r)
                                     (runes (drop (nat (position l)) (source l)))) @ history l\<rparr>)"
proof -
  from AcceptRun_loop_wellformed [OF assms, of valid 0] obtain lk r llast where
    lp: "AcceptRun_loop valid l 0
           = Inr (0 + int (length (takeWhile (\<lambda>r. 0 \<le> strings_IndexRune valid r)
                                 (runes (drop (nat (position l)) (source l))))), llast)"
    and nx: "Next lk = Inr (r, llast)"
    and lk: "lk = l\<lparr>position := position l + sum_list (map utf8_RuneLen
                  (takeWhile (\<lambda>r. 0 \<le> strings_IndexRune valid r)
                     (runes (drop (nat (position l)) (source l))))),
            history := rev (takeWhile (\<lambda>r. 0 \<le> strings_IndexRune valid r)
                              (runes (drop (nat (position l)) (source l)))) @ history l\<rparr>"
    and ci: "cursor_inv lk" and wf: "wellformed_utf8 (drop (nat (position lk)) (source lk))"
    by blast
  from Backup_undoes_Next(1) [OF ci wf nx] have "Backup llast = lk" .
  with lp lk show ?thesis by (simp add: AcceptRun_def)
qed

section \<open>The consumer\<close>

lemma chan_run_closed:
  "closed ch \<Longrightarrow> chan_run as (Some ch) = Inr (rs, c1) \<Longrightarrow>
   sent as = [] \<and> (\<exists>ch1. c1 = Some ch1 \<and> closed ch1 \<and> length (buf ch1) \<le> length (buf ch))"
proof (induction as arbitrary: ch rs)
  case Nil
  then show ?case by auto
next
  case (Cons a as)
  show ?case
  proof (cases a)
    case (Send t)
    with Cons.prems show ?thesis by (simp add: chan_send_def)
  next
    case Close
    with Cons.prems show ?thesis by (simp add: chan_close_def)
  next
    case Recv
    show ?thesis
    proof (cases "buf ch")
      case Nil
      with Recv Cons.prems obtain rs1 where "chan_run as (Some ch) = Inr (rs1, c1)"
        by (auto simp add: chan_recv_def split: sum.splits)
      from Cons.IH [OF Cons.prems(1) this] Recv show ?thesis by simp
    next
      case (Cons t rest)
      with Recv Cons.prems(2) obtain rs1 where
        r: "chan_run as (Some (ch\<lparr>buf := rest\<rparr>)) = Inr (rs1, c1)"
        by (auto simp add: chan_recv_def split: sum.splits)
      have "closed (ch\<lparr>buf := rest\<rparr>)" using Cons.prems(1) by simp
      from Cons.IH [OF this r] Recv Cons show ?thesis by auto
    qed
  qed
qed

lemma chan_run_fifo:
  "chan_run as (Some ch) = Inr (rs, c1) \<Longrightarrow>
   \<exists>ch1 k m. c1 = Some ch1 \<and>
     rs = map (\<lambda>t. (Some t, True)) (take k (buf ch @ sent as)) @ replicate m (None, False) \<and>
     k \<le> length (buf ch @ sent as) \<and>
     buf ch1 = drop k (buf ch @ sent as) \<and>
     (0 < m \<longrightarrow> k = length (buf ch @ sent as) \<and> closed ch1)"
proof (induction as arbitrary: ch rs)
  case Nil
  then have "c1 = Some ch \<and>
     rs = map (\<lambda>t. (Some t, True)) (take 0 (buf ch @ sent [])) @ replicate 0 (None, False) \<and>
     0 \<le> length (buf ch @ sent []) \<and>
     buf ch = drop 0 (buf ch @ sent []) \<and>
     (0 < (0::nat) \<longrightarrow> 0 = length (buf ch @ sent []) \<and> closed ch)"
    by simp
  then show ?case by blast
next
  case (Cons a as)
  show ?case
  proof (cases a)
    case (Send t)
    with Cons.prems have r: "chan_run as (Some (ch\<lparr>buf := buf ch @ [t]\<rparr>)) = Inr (rs, c1)"
      by (auto simp add: chan_send_def split: if_splits)
    from Cons.IH [OF r] Send show ?thesis by simp
  next
    case Close
    with Cons.prems have r: "chan_run as (Some (ch\<lparr>closed := True\<rparr>)) = Inr (rs, c1)"
      by (auto simp add: chan_close_def split: if_splits)
    from Cons.IH [OF r] Close show ?thesis by simp
  next
    case Recv
    show ?thesis
    proof (cases "buf ch")
      case Nil
      with Recv Cons.prems obtain rs1 where
        cl: "closed ch" and r: "chan_run as (Some ch) = Inr (rs1, c1)" and rs: "rs = (None, False) # rs1"
        by (auto simp add: chan_recv_def split: sum.splits if_splits)
      from chan_run_closed [OF cl r] obtain ch1 where
        s: "sent as = []" and c1: "c1 = Some ch1" "closed ch1" "buf ch1 = []"
        using Nil by auto
      from Cons.IH [OF r] s Nil obtain m where "rs1 = replicate m (None, False)"
        by auto
      with rs have "rs = map (\<lambda>t. (Some t, True)) (take 0 (buf ch @ sent (a # as)))
                      @ replicate (Suc m) (None, False)"
        by simp
      with c1 s Nil Recv show ?thesis
        by (intro exI [of _ ch1] exI [of _ 0] exI [of _ "Suc m"]) simp
    next
      case (Cons t rest)
      with Recv Cons.prems obtain rs1 where
        r: "chan_run as (Some (ch\<lparr>buf := rest\<rparr>)) = Inr (rs1, c1)" and rs: "rs = (Some t, True) # rs1"
        by (auto simp add: chan_recv_def split: sum.splits)
      from Cons.IH [OF r] obtain ch1 k m where
        ih: "c1 = Some ch1"
            "rs1 = map (\<lambda>t. (Some t, True)) (take k (rest @ sent as)) @ replicate m (None, False)"
            "k \<le> length (rest @ sent as)"
            "buf ch1 = drop k (rest @ sent as)"
            "0 < m \<longrightarrow> k = length (rest @ sent as) \<and> closed ch1"
        by auto
      with rs Cons Recv show ?thesis
        by (intro exI [of _ ch1] exI [of _ "Suc k"] exI [of _ m]) simp
    qed
  qed
qed


lemma NextToken_closed_empty:
  assumes "tokens l = Some ch" and "closed ch" and "buf ch = []"
  shows "NextToken l = Inr ((None, True), l)"
  using assms by (simp add: NextToken_def chan_recv_def)

lemma NextToken_nonempty:
  assumes "tokens l = Some ch" and "buf ch = t # rest"
  shows "NextToken l = Inr ((Some t, False), l\<lparr>tokens := Some (ch\<lparr>buf := rest\<rparr>)\<rparr>)"
  using assms by (simp add: NextToken_def chan_recv_def)

lemma pull_closed:
  "tokens l = Some ch \<Longrightarrow> closed ch \<Longrightarrow>
   pull k l = Inr (map (\<lambda>t. (Some t, False)) (take k (buf ch)) @
                   replicate (k - length (buf ch)) (None, True),
                   l\<lparr>tokens := Some (ch\<lparr>buf := drop k (buf ch)\<rparr>)\<rparr>)"
proof (induction k arbitrary: l ch)
  case 0
  then show ?case by simp
next
  case (Suc k)
  show ?case
  proof (cases "buf ch")
    case Nil
    from NextToken_closed_empty [OF Suc.prems Nil] Suc.IH [OF Suc.prems] Nil Suc.prems
    show ?thesis by (simp add: replicate_app_Cons_same)
  next
    case (Cons t rest)
    let ?l1 = "l\<lparr>tokens := Some (ch\<lparr>buf := rest\<rparr>)\<rparr>"
    have "tokens ?l1 = Some (ch\<lparr>buf := rest\<rparr>)" "closed (ch\<lparr>buf := rest\<rparr>)"
      using Suc.prems by simp_all
    from Suc.IH [OF this] NextToken_nonempty [OF Suc.prems(1) Cons] Cons
    show ?thesis by simp
  qed
qed

lemma run_closes:
  assumes "run graph l = Some (Inr l1)"
  shows "\<exists>ch. tokens l1 = Some ch \<and> closed ch"
  using assms
  by (auto simp add: run_def chan_close_def split: option.splits sum.splits if_splits)

lemma Emit_appends:
  assumes "Emit t l = Inr l1"
  shows "\<exists>tok. queued l1 = queued l @ [tok] \<and> Type tok = t"
  using assms
  by (auto simp add: Emit_def chan_send_def checkLines_def Current_def queued_def
        split: sum.splits option.splits if_splits)

lemma Error_appends:
  assumes "Error msg l = Inr (st, l1)"
  shows "\<exists>tok. queued l1 = queued l @ [tok] \<and> Type tok = ErrorToken"
  using assms
  by (auto simp add: Error_def chan_send_def queued_def
        split: sum.splits option.splits if_splits)

text \<open>
  C4 (corrected). A send puts the token behind the tokens already in the channel (\<open>Emit\<close>
  and \<open>Error\<close> are the calls that send), and \<open>NextToken\<close> takes the token at the front.
  So under every schedule of sends, receives and the \<open>close\<close> the receives return the
  tokens in the order they were sent, and a receive returns \<open>ok = false\<close> only after every
  token sent has been received and the channel has been closed; from then on every receive
  does. When \<open>run\<close> returns, the channel is closed. On a closed channel that still
  holds the tokens \<open>ts\<close>, \<open>k\<close> calls of \<open>NextToken\<close> return the first \<open>k\<close> tokens of
  \<open>ts\<close> in their order, each with \<open>done = false\<close>, and every call after the last token
  returns \<open>(nil, true)\<close>.
\<close>

theorem C4_tokens_in_order_then_closed:
  "(\<forall>t. \<forall>l l1 :: 'q Lexer. Emit t l = Inr l1 \<longrightarrow>
      (\<exists>tok. queued l1 = queued l @ [tok] \<and> Type tok = t)) \<and>
   (\<forall>msg st. \<forall>l l1 :: 'q Lexer. Error msg l = Inr (st, l1) \<longrightarrow>
      (\<exists>tok. queued l1 = queued l @ [tok] \<and> Type tok = ErrorToken)) \<and>
   (\<forall>ch t rest. \<forall>l :: 'q Lexer. tokens l = Some ch \<and> buf ch = t # rest \<longrightarrow>
      NextToken l = Inr ((Some t, False), l\<lparr>tokens := Some (ch\<lparr>buf := rest\<rparr>)\<rparr>)) \<and>
   (\<forall>as ch rs c1. chan_run as (Some ch) = Inr (rs, c1) \<longrightarrow>
      (\<exists>ch1 k m. c1 = Some ch1 \<and>
         rs = map (\<lambda>t. (Some t, True)) (take k (buf ch @ sent as)) @ replicate m (None, False) \<and>
         k \<le> length (buf ch @ sent as) \<and>
         buf ch1 = drop k (buf ch @ sent as) \<and>
         (0 < m \<longrightarrow> k = length (buf ch @ sent as) \<and> closed ch1))) \<and>
   (\<forall>graph. \<forall>l l1 :: 'q Lexer. run graph l = Some (Inr l1) \<longrightarrow>
      (\<exists>ch. tokens l1 = Some ch \<and> closed ch)) \<and>
   (\<forall>k ch. \<forall>l :: 'q Lexer. tokens l = Some ch \<and> closed ch \<longrightarrow>
      pull k l = Inr (map (\<lambda>t. (Some t, False)) (take k (buf ch)) @
                      replicate (k - length (buf ch)) (None, True),
                      l\<lparr>tokens := Some (ch\<lparr>buf := drop k (buf ch)\<rparr>)\<rparr>))"
proof (intro conjI allI impI)
  fix t and l l1 :: "'q Lexer"
  assume "Emit t l = Inr l1"
  then show "\<exists>tok. queued l1 = queued l @ [tok] \<and> Type tok = t"
    by (rule Emit_appends)
next
  fix msg st and l l1 :: "'q Lexer"
  assume "Error msg l = Inr (st, l1)"
  then show "\<exists>tok. queued l1 = queued l @ [tok] \<and> Type tok = ErrorToken"
    by (rule Error_appends)
next
  fix ch t rest and l :: "'q Lexer"
  assume "tokens l = Some ch \<and> buf ch = t # rest"
  then show "NextToken l = Inr ((Some t, False), l\<lparr>tokens := Some (ch\<lparr>buf := rest\<rparr>)\<rparr>)"
    using NextToken_nonempty by blast
next
  fix as ch rs c1
  assume "chan_run as (Some ch) = Inr (rs, c1)"
  then show "\<exists>ch1 k m. c1 = Some ch1 \<and>
         rs = map (\<lambda>t. (Some t, True)) (take k (buf ch @ sent as)) @ replicate m (None, False) \<and>
         k \<le> length (buf ch @ sent as) \<and>
         buf ch1 = drop k (buf ch @ sent as) \<and>
         (0 < m \<longrightarrow> k = length (buf ch @ sent as) \<and> closed ch1)"
    by (rule chan_run_fifo)
next
  fix graph and l l1 :: "'q Lexer"
  assume "run graph l = Some (Inr l1)"
  then show "\<exists>ch. tokens l1 = Some ch \<and> closed ch"
    by (rule run_closes)
next
  fix k ch and l :: "'q Lexer"
  assume "tokens l = Some ch \<and> closed ch"
  then show "pull k l = Inr (map (\<lambda>t. (Some t, False)) (take k (buf ch)) @
                      replicate (k - length (buf ch)) (None, True),
                      l\<lparr>tokens := Some (ch\<lparr>buf := drop k (buf ch)\<rparr>)\<rparr>)"
    using pull_closed by blast
qed

text \<open>
  The witness is \<open>TestMultipleTokens\<close>: the graph of the tests on
  \<open>123.hello  675.world\<close>, run synchronously, and eight calls of \<open>NextToken\<close>.
\<close>

theorem C4_tokens_in_order_then_closed_witness:
  "StartSync (test_graph (\<lambda>r. [])) (New ''123.hello  675.world'' (Some NumberState))
     = Some (Inr \<lparr>source = ''123.hello  675.world'', start = 20, line = 1, position = 20,
          lastWidth = 0, startState = Some NumberState,
          tokens = Some \<lparr>buf = [\<lparr>Type = 0, Value = ''123'', Position = 3, Line = 1\<rparr>,
                                \<lparr>Type = 1, Value = ''.'', Position = 4, Line = 1\<rparr>,
                                \<lparr>Type = 2, Value = ''hello'', Position = 9, Line = 1\<rparr>,
                                \<lparr>Type = 0, Value = ''675'', Position = 14, Line = 1\<rparr>,
                                \<lparr>Type = 1, Value = ''.'', Position = 15, Line = 1\<rparr>,
                                \<lparr>Type = 2, Value = ''world'', Position = 20, Line = 1\<rparr>],
                         cap = 10, closed = True\<rparr>,
          history = [- 1]\<rparr>) \<and>
   pull 8 \<lparr>source = ''123.hello  675.world'', start = 20, line = 1, position = 20,
          lastWidth = 0, startState = Some NumberState,
          tokens = Some \<lparr>buf = [\<lparr>Type = 0, Value = ''123'', Position = 3, Line = 1\<rparr>,
                                \<lparr>Type = 1, Value = ''.'', Position = 4, Line = 1\<rparr>,
                                \<lparr>Type = 2, Value = ''hello'', Position = 9, Line = 1\<rparr>,
                                \<lparr>Type = 0, Value = ''675'', Position = 14, Line = 1\<rparr>,
                                \<lparr>Type = 1, Value = ''.'', Position = 15, Line = 1\<rparr>,
                                \<lparr>Type = 2, Value = ''world'', Position = 20, Line = 1\<rparr>],
                         cap = 10, closed = True\<rparr>,
          history = [- 1]\<rparr>
     = Inr ([(Some \<lparr>Type = 0, Value = ''123'', Position = 3, Line = 1\<rparr>, False),
              (Some \<lparr>Type = 1, Value = ''.'', Position = 4, Line = 1\<rparr>, False),
              (Some \<lparr>Type = 2, Value = ''hello'', Position = 9, Line = 1\<rparr>, False),
              (Some \<lparr>Type = 0, Value = ''675'', Position = 14, Line = 1\<rparr>, False),
              (Some \<lparr>Type = 1, Value = ''.'', Position = 15, Line = 1\<rparr>, False),
              (Some \<lparr>Type = 2, Value = ''world'', Position = 20, Line = 1\<rparr>, False),
              (None, True), (None, True)],
            \<lparr>source = ''123.hello  675.world'', start = 20, line = 1, position = 20,
          lastWidth = 0, startState = Some NumberState,
          tokens = Some \<lparr>buf = [], cap = 10, closed = True\<rparr>,
          history = [- 1]\<rparr>)"
proof -
  let ?lf = "\<lparr>source = ''123.hello  675.world'', start = 20, line = 1, position = 20,
          lastWidth = 0, startState = Some NumberState,
          tokens = Some \<lparr>buf = [\<lparr>Type = 0, Value = ''123'', Position = 3, Line = 1\<rparr>,
                                \<lparr>Type = 1, Value = ''.'', Position = 4, Line = 1\<rparr>,
                                \<lparr>Type = 2, Value = ''hello'', Position = 9, Line = 1\<rparr>,
                                \<lparr>Type = 0, Value = ''675'', Position = 14, Line = 1\<rparr>,
                                \<lparr>Type = 1, Value = ''.'', Position = 15, Line = 1\<rparr>,
                                \<lparr>Type = 2, Value = ''world'', Position = 20, Line = 1\<rparr>],
                         cap = 10, closed = True\<rparr>,
          history = [- 1]\<rparr>"
  let ?ch = "\<lparr>buf = [\<lparr>Type = 0, Value = ''123'', Position = 3, Line = 1\<rparr>,
                                \<lparr>Type = 1, Value = ''.'', Position = 4, Line = 1\<rparr>,
                                \<lparr>Type = 2, Value = ''hello'', Position = 9, Line = 1\<rparr>,
                                \<lparr>Type = 0, Value = ''675'', Position = 14, Line = 1\<rparr>,
                                \<lparr>Type = 1, Value = ''.'', Position = 15, Line = 1\<rparr>,
                                \<lparr>Type = 2, Value = ''world'', Position = 20, Line = 1\<rparr>],
                         cap = 10, closed = True\<rparr>"
  have r: "StartSync (test_graph (\<lambda>r. [])) (New ''123.hello  675.world'' (Some NumberState))
             = Some (Inr ?lf)"
    by code_simp
  then have "run (test_graph (\<lambda>r. [])) (make_tokens (New ''123.hello  675.world'' (Some NumberState)))
             = Some (Inr ?lf)"
    by (simp only: StartSync_def)
  with C4_tokens_in_order_then_closed [where 'q = test_state]
  have "\<exists>ch. tokens ?lf = Some ch \<and> closed ch"
    by blast
  have h: "tokens ?lf = Some ?ch \<and> closed ?ch" by simp
  from C4_tokens_in_order_then_closed [where 'q = test_state] h
  have "pull 8 ?lf = Inr (map (\<lambda>t. (Some t, False)) (take 8 (buf ?ch)) @
                      replicate (8 - length (buf ?ch)) (None, True),
                      ?lf\<lparr>tokens := Some (?ch\<lparr>buf := drop 8 (buf ?ch)\<rparr>)\<rparr>)"
    by blast
  then have "pull 8 ?lf = Inr ([(Some \<lparr>Type = 0, Value = ''123'', Position = 3, Line = 1\<rparr>, False),
              (Some \<lparr>Type = 1, Value = ''.'', Position = 4, Line = 1\<rparr>, False),
              (Some \<lparr>Type = 2, Value = ''hello'', Position = 9, Line = 1\<rparr>, False),
              (Some \<lparr>Type = 0, Value = ''675'', Position = 14, Line = 1\<rparr>, False),
              (Some \<lparr>Type = 1, Value = ''.'', Position = 15, Line = 1\<rparr>, False),
              (Some \<lparr>Type = 2, Value = ''world'', Position = 20, Line = 1\<rparr>, False),
              (None, True), (None, True)], \<lparr>source = ''123.hello  675.world'', start = 20, line = 1, position = 20,
          lastWidth = 0, startState = Some NumberState,
          tokens = Some \<lparr>buf = [], cap = 10, closed = True\<rparr>,
          history = [- 1]\<rparr>)"
    by (simp add: numeral_eq_Suc)
  with r show ?thesis by simp
qed

text \<open>
  The claim C4 as it is written fails on \<open>TestNumbers\<close>: the graph has returned \<open>nil\<close> and
  \<open>run\<close> has closed the channel, and the call of \<open>NextToken\<close> that follows returns a
  token with \<open>done = false\<close>, not \<open>(nil, true)\<close>.
\<close>

theorem C4_counterexample:
  "StartSync (test_graph (\<lambda>r. [])) (New ''123'' (Some NumberState))
     = Some (Inr \<lparr>source = ''123'', start = 3, line = 1, position = 3, lastWidth = 0,
                  startState = Some NumberState,
                  tokens = Some \<lparr>buf = [\<lparr>Type = 0, Value = ''123'', Position = 3, Line = 1\<rparr>],
                                 cap = 1, closed = True\<rparr>,
                  history = []\<rparr>) \<and>
   NextToken \<lparr>source = ''123'', start = 3, line = 1, position = 3, lastWidth = 0,
              startState = Some NumberState,
              tokens = Some \<lparr>buf = [\<lparr>Type = 0, Value = ''123'', Position = 3, Line = 1\<rparr>],
                             cap = 1, closed = True\<rparr>,
              history = []\<rparr>
     = Inr ((Some \<lparr>Type = 0, Value = ''123'', Position = 3, Line = 1\<rparr>, False),
            \<lparr>source = ''123'', start = 3, line = 1, position = 3, lastWidth = 0,
             startState = Some NumberState,
             tokens = Some \<lparr>buf = [], cap = 1, closed = True\<rparr>,
             history = []\<rparr>)"
  by code_simp

end
